theory Spec2Isabelle
  imports Complex_Main "HOL-Library.Word" "HOL-Library.Signed_Division"
begin

unbundle bit_operations_syntax

section \<open>The bloom-sift filter: a shallow embedding\<close>

text \<open>
  The development follows the TypeScript sources: \<^verbatim>\<open>calculateOptimalParams\<close> of
  \<^verbatim>\<open>src/optimal.ts\<close> and the class \<^verbatim>\<open>BloomSift\<close> (constructor, \<^verbatim>\<open>add\<close>,
  \<^verbatim>\<open>has\<close>, \<^verbatim>\<open>clear\<close>, \<^verbatim>\<open>serialize\<close>, \<^verbatim>\<open>deserialize\<close>, \<^verbatim>\<open>setBit\<close>, \<^verbatim>\<open>getBit\<close>).

  Numbers. A JavaScript \<^verbatim>\<open>number\<close> is modelled by a real number: \<^verbatim>\<open>Math.log\<close> is \<open>ln\<close>,
  \<^verbatim>\<open>Math.LN2\<close> is \<open>ln 2\<close>, \<^verbatim>\<open>Math.ceil\<close> is the ceiling and \<^verbatim>\<open>Math.round\<close> is
  \<open>round\<close> (\<open>\<lfloor>x + 1/2\<rfloor>\<close>, halves go up, as in JavaScript). Rounding errors of the
  IEEE doubles, \<^verbatim>\<open>NaN\<close> and the infinities are outside this model. The private fields
  \<^verbatim>\<open>_size\<close>, \<^verbatim>\<open>_hashCount\<close> and \<^verbatim>\<open>_count\<close> only ever hold results of \<^verbatim>\<open>Math.ceil\<close>,
  \<^verbatim>\<open>Math.round\<close>, \<^verbatim>\<open>++\<close> or values that passed \<^verbatim>\<open>Number.isInteger\<close>, so they are
  integers; \<^verbatim>\<open>_capacity\<close> is whatever number the caller gave and stays a real.
  A \<^verbatim>\<open>bigint\<close> is an \<open>int\<close>.
\<close>

subsection \<open>Errors\<close>

text \<open>
  \<^verbatim>\<open>throw new Error(msg)\<close> is \<open>Inl (Error msg)\<close>. The two exceptions the platform itself
  can raise in this code are kept apart: the \<^verbatim>\<open>RangeError\<close> of a \<^verbatim>\<open>bigint\<close> division by
  zero and the \<^verbatim>\<open>InvalidCharacterError\<close> of \<^verbatim>\<open>atob\<close>.
\<close>

datatype error = Error string | RangeError string | InvalidCharacterError

subsection \<open>Parameter calculation (src/optimal.ts)\<close>

text \<open>The source's variable \<^verbatim>\<open>size\<close> is written \<open>sz\<close>: \<open>size\<close> is a constant of HOL.\<close>

definition calculateOptimalParams :: "real \<Rightarrow> real \<Rightarrow> int \<times> int" where
  "calculateOptimalParams capacity errorRate =
     (let sz = \<lceil>(- capacity * ln errorRate) / (ln 2 * ln 2)\<rceil>;
          hashCount = round ((real_of_int sz / capacity) * ln 2)
      in (sz, hashCount))"

subsection \<open>The filter\<close>

type_synonym byte = "8 word"

text \<open>
  The fields of the class. An Isabelle name cannot begin with an underscore, so \<^verbatim>\<open>_size\<close>,
  \<^verbatim>\<open>_hashCount\<close>, \<^verbatim>\<open>_capacity\<close> and \<^verbatim>\<open>_count\<close> carry the prefix \<open>f\<close>. \<^verbatim>\<open>bits\<close> is the
  \<^verbatim>\<open>Uint8Array\<close>.
\<close>

text \<open>
  The constructor allocates \<^verbatim>\<open>new Uint8Array(Math.ceil(size / 8))\<close>, a zero-filled
  array; the allocation is taken to succeed (a length beyond the engine's limit would
  raise a \<^verbatim>\<open>RangeError\<close>, which is not part of this model).
\<close>

record BloomSift =
  bits :: "byte list"
  f_size :: int
  f_hashCount :: int
  f_capacity :: real
  f_count :: int

definition new_BloomSift :: "real \<Rightarrow> real \<Rightarrow> error + BloomSift" where
  "new_BloomSift capacity errorRate =
     (if capacity \<le> 0 then Inl (Error ''capacity must be positive'')
      else if errorRate \<le> 0 \<or> errorRate \<ge> 1
        then Inl (Error ''errorRate must be between 0 and 1'')
      else (case calculateOptimalParams capacity errorRate of (sz, hashCount) \<Rightarrow>
        Inr \<lparr> bits = replicate (nat \<lceil>real_of_int sz / 8\<rceil>) 0,
              f_size = sz,
              f_hashCount = hashCount,
              f_capacity = capacity,
              f_count = 0 \<rparr>))"

definition get_size :: "BloomSift \<Rightarrow> int" where
  "get_size f = f_size f"

definition get_hashCount :: "BloomSift \<Rightarrow> int" where
  "get_hashCount f = f_hashCount f"

definition get_count :: "BloomSift \<Rightarrow> int" where
  "get_count f = f_count f"

definition fillRatio :: "BloomSift \<Rightarrow> real" where
  "fillRatio f = min 1 (real_of_int (f_count f) / f_capacity f)"

subsection \<open>Hashing and bit access\<close>

text \<open>
  An item is a string or a \<^verbatim>\<open>Uint8Array\<close>. The hash \<^verbatim>\<open>hash128x64\<close> comes from the
  package \<^verbatim>\<open>murmur-hash\<close>, not from this repository: it is a parameter \<open>H\<close> of every
  function that hashes, a function from items to 128-bit values, read as a non-negative
  \<^verbatim>\<open>bigint\<close> (\<^verbatim>\<open>output: 'bigint'\<close>).
\<close>

datatype item = Text string | Bytes "byte list"

type_synonym hashfn = "item \<Rightarrow> 128 word"

definition mask64 :: int where
  "mask64 = push_bit 64 1 - 1"

definition hash128 :: "hashfn \<Rightarrow> item \<Rightarrow> int \<times> int" where
  "hash128 H x =
     (let hash = uint (H x);
          h1 = drop_bit 64 hash;
          h2 = hash AND mask64
      in (h1, h2))"

text \<open>
  The \<^verbatim>\<open>%\<close> of two \<^verbatim>\<open>bigint\<close>s truncates towards zero (\<open>smod\<close>) and raises a
  \<^verbatim>\<open>RangeError\<close> when the divisor is zero.
\<close>

definition bigint_rem :: "int \<Rightarrow> int \<Rightarrow> error + int" where
  "bigint_rem a b = (if b = 0 then Inl (RangeError ''Division by zero'') else Inr (a smod b))"

text \<open>
  \<^verbatim>\<open>this.bits[byteIndex]\<close> is \<^verbatim>\<open>undefined\<close> exactly when \<^verbatim>\<open>byteIndex\<close> is not an index of
  the array; \<^verbatim>\<open>setBit\<close> then does nothing and \<^verbatim>\<open>getBit\<close> answers \<^verbatim>\<open>false\<close>. Inside the
  array \<^verbatim>\<open>index\<close> is non-negative, \<^verbatim>\<open>index % 8\<close> lies in 0..7, and
  \<^verbatim>\<open>current | (1 << bitIndex)\<close> fits the byte it is stored in.
\<close>

definition setBit :: "byte list \<Rightarrow> int \<Rightarrow> byte list" where
  "setBit bs index =
     (let byteIndex = index div 8;
          bitIndex = index smod 8
      in if 0 \<le> byteIndex \<and> nat byteIndex < length bs
         then bs[nat byteIndex := (bs ! nat byteIndex) OR push_bit (nat bitIndex) 1]
         else bs)"

definition getBit :: "byte list \<Rightarrow> int \<Rightarrow> bool" where
  "getBit bs index =
     (let byteIndex = index div 8;
          bitIndex = index smod 8
      in 0 \<le> byteIndex \<and> nat byteIndex < length bs
         \<and> (bs ! nat byteIndex) AND push_bit (nat bitIndex) 1 \<noteq> 0)"

subsection \<open>add, has, clear\<close>

text \<open>
  The loops \<^verbatim>\<open>for (let i = 0; i < this._hashCount; i++)\<close> count with a
  \<^verbatim>\<open>number\<close>, a double. The counter starts at 0 and \<^verbatim>\<open>i++\<close> adds 1 exactly as
  long as \<^verbatim>\<open>i\<close> is below \<open>2\<^sup>5\<^sup>3\<close>; \<open>2\<^sup>5\<^sup>3 + 1\<close> is not a double and rounds back
  to \<open>2\<^sup>5\<^sup>3\<close>, so from there on the counter no longer moves. With a hash count above
  \<open>2\<^sup>5\<^sup>3\<close> the condition \<^verbatim>\<open>i < this._hashCount\<close> then stays true for ever.

  A loop that may not end is a \<^theory_text>\<open>partial_function\<close> into \<open>option\<close>: the value
  \<open>None\<close> says that the call does not return, \<open>Some (Inl e)\<close> that it raises \<open>e\<close>
  and \<open>Some (Inr v)\<close> that it returns \<open>v\<close>.

  \<^verbatim>\<open>Number(...)\<close> of the remainder is the remainder itself: its absolute value is
  below \<^verbatim>\<open>size\<close>, a number. When \<^verbatim>\<open>add\<close> raises, it does so in the first
  iteration, before any bit is written.
\<close>

definition js_increment :: "int \<Rightarrow> int" where
  "js_increment i = (if i < 2 ^ 53 then i + 1 else i)"

partial_function (option) add_loop ::
  "int \<Rightarrow> int \<Rightarrow> int \<Rightarrow> int \<Rightarrow> int \<Rightarrow> byte list \<Rightarrow> (error + byte list) option" where
  "add_loop h1 h2 sz hashCount i bs =
     (if i < hashCount then
        (case bigint_rem (h1 + i * h2) sz of
           Inl e \<Rightarrow> Some (Inl e)
         | Inr index \<Rightarrow> add_loop h1 h2 sz hashCount (js_increment i) (setBit bs index))
      else Some (Inr bs))"

definition add :: "hashfn \<Rightarrow> BloomSift \<Rightarrow> item \<Rightarrow> (error + BloomSift) option" where
  "add H f x =
     (case hash128 H x of (h1, h2) \<Rightarrow>
        (case add_loop h1 h2 (f_size f) (f_hashCount f) 0 (bits f) of
           None \<Rightarrow> None
         | Some (Inl e) \<Rightarrow> Some (Inl e)
         | Some (Inr bs) \<Rightarrow> Some (Inr (f\<lparr> bits := bs, f_count := f_count f + 1 \<rparr>))))"

partial_function (option) has_loop ::
  "int \<Rightarrow> int \<Rightarrow> int \<Rightarrow> int \<Rightarrow> int \<Rightarrow> byte list \<Rightarrow> (error + bool) option" where
  "has_loop h1 h2 sz hashCount i bs =
     (if i < hashCount then
        (case bigint_rem (h1 + i * h2) sz of
           Inl e \<Rightarrow> Some (Inl e)
         | Inr index \<Rightarrow>
             if \<not> getBit bs index then Some (Inr False)
             else has_loop h1 h2 sz hashCount (js_increment i) bs)
      else Some (Inr True))"

definition has :: "hashfn \<Rightarrow> BloomSift \<Rightarrow> item \<Rightarrow> (error + bool) option" where
  "has H f x =
     (case hash128 H x of (h1, h2) \<Rightarrow>
        has_loop h1 h2 (f_size f) (f_hashCount f) 0 (bits f))"

definition clear :: "BloomSift \<Rightarrow> BloomSift" where
  "clear f = f\<lparr> bits := map (\<lambda>_. 0) (bits f), f_count := 0 \<rparr>"

text \<open>
  A run of \<^verbatim>\<open>add\<close> calls: it stops at the first exception and does not return when
  one of the calls does not.
\<close>

fun add_all :: "hashfn \<Rightarrow> BloomSift \<Rightarrow> item list \<Rightarrow> (error + BloomSift) option" where
  "add_all H f [] = Some (Inr f)"
| "add_all H f (x # xs) =
     (case add H f x of
        None \<Rightarrow> None
      | Some (Inl e) \<Rightarrow> Some (Inl e)
      | Some (Inr f') \<Rightarrow> add_all H f' xs)"

subsection \<open>The platform's base64: btoa and atob\<close>

text \<open>
  \<^verbatim>\<open>btoa\<close> and \<^verbatim>\<open>atob\<close> belong to the JavaScript platform. They are written out here
  after the HTML standard (forgiving-base64 encode and decode, RFC 4648 alphabet) so that
  \<^verbatim>\<open>serialize\<close> and \<^verbatim>\<open>deserialize\<close> can be run on concrete records. A binary string is a
  \<open>string\<close> whose characters are the bytes; Isabelle's \<open>char\<close> has exactly the codes
  0..255, the ones \<^verbatim>\<open>btoa\<close> accepts.
\<close>

definition base64_alphabet :: string where
  "base64_alphabet = ''ABCDEFGHIJKLMNOPQRSTUVWXYZabcdefghijklmnopqrstuvwxyz0123456789+/''"

definition b64_char :: "nat \<Rightarrow> char" where
  "b64_char n = base64_alphabet ! n"

definition b64_index :: "char \<Rightarrow> nat" where
  "b64_index c = length (takeWhile (\<lambda>a. a \<noteq> c) base64_alphabet)"

fun btoa :: "string \<Rightarrow> string" where
  "btoa [] = []"
| "btoa [a] =
     (let x = (of_char a :: nat)
      in [b64_char (x div 4), b64_char ((x mod 4) * 16), CHR ''='', CHR ''=''])"
| "btoa [a, b] =
     (let x = (of_char a :: nat); y = (of_char b :: nat)
      in [b64_char (x div 4), b64_char ((x mod 4) * 16 + y div 16),
          b64_char ((y mod 16) * 4), CHR ''=''])"
| "btoa (a # b # c # rest) =
     (let x = (of_char a :: nat); y = (of_char b :: nat); z = (of_char c :: nat)
      in [b64_char (x div 4), b64_char ((x mod 4) * 16 + y div 16),
          b64_char ((y mod 16) * 4 + z div 64), b64_char (z mod 64)] @ btoa rest)"

definition ascii_whitespace :: "char \<Rightarrow> bool" where
  "ascii_whitespace c = (c \<in> set [CHR 0x09, CHR 0x0A, CHR 0x0C, CHR 0x0D, CHR 0x20])"

text \<open>
  Sextets to bytes: every four sextets give three bytes; a rest of three gives two bytes
  and a rest of two gives one (the spare low bits are dropped).
\<close>

fun sextets_to_bytes :: "nat list \<Rightarrow> nat list" where
  "sextets_to_bytes (p # q # r # s # rest) =
     [p * 4 + q div 16, (q mod 16) * 16 + r div 4, (r mod 4) * 64 + s] @ sextets_to_bytes rest"
| "sextets_to_bytes [p, q, r] = [p * 4 + q div 16, (q mod 16) * 16 + r div 4]"
| "sextets_to_bytes [p, q] = [p * 4 + q div 16]"
| "sextets_to_bytes _ = []"

definition strip_padding :: "string \<Rightarrow> string" where
  "strip_padding d =
     (if length d mod 4 = 0 then
        (if 2 \<le> length d \<and> drop (length d - 2) d = ''=='' then take (length d - 2) d
         else if 1 \<le> length d \<and> drop (length d - 1) d = ''='' then take (length d - 1) d
         else d)
      else d)"

definition atob :: "string \<Rightarrow> string option" where
  "atob s =
     (let d = strip_padding (filter (\<lambda>c. \<not> ascii_whitespace c) s)
      in if length d mod 4 = 1 then None
         else if \<not> list_all (\<lambda>c. c \<in> set base64_alphabet) d then None
         else Some (map char_of (sextets_to_bytes (map b64_index d))))"

subsection \<open>Numbers in template literals\<close>

text \<open>
  \<^verbatim>\<open>${n}\<close> for an integer \<^verbatim>\<open>n\<close> of absolute value below \<open>10\<^sup>2\<^sup>1\<close> is its decimal
  numeral; from \<open>10\<^sup>2\<^sup>1\<close> on JavaScript switches to the exponent notation, which this
  function does not follow.
\<close>

fun decimal :: "nat \<Rightarrow> string" where
  "decimal n =
     (if n < 10 then [''0123456789'' ! n]
      else decimal (n div 10) @ [''0123456789'' ! (n mod 10)])"

declare decimal.simps [simp del]

definition Number_toString :: "int \<Rightarrow> string" where
  "Number_toString k = (if k < 0 then CHR ''-'' # decimal (nat (- k)) else decimal (nat k))"

subsection \<open>serialize and deserialize\<close>

text \<open>
  The record handed to \<^verbatim>\<open>deserialize\<close> is an arbitrary JavaScript object. A field of
  the model is \<open>None\<close> when the object does not have it (reading it gives
  \<^verbatim>\<open>undefined\<close>); \<open>s_bits\<close> is also \<open>None\<close> when the field holds something that is
  not a string. A numeric field holds a number or is absent. The interface
  \<^verbatim>\<open>SerializedBloomSift\<close> declares \<^verbatim>\<open>bits\<close>, \<^verbatim>\<open>size\<close>, \<^verbatim>\<open>hashCount\<close> and \<^verbatim>\<open>count\<close>;
  the repository's tests also pass a field \<^verbatim>\<open>capacity\<close>, which the model carries as
  \<open>s_capacity\<close> although \<^verbatim>\<open>deserialize\<close> never reads it.
\<close>

record SerializedBloomSift =
  s_bits :: "string option"
  s_size :: "real option"
  s_hashCount :: "real option"
  s_count :: "real option"
  s_capacity :: "real option"

text \<open>
  \<^verbatim>\<open>x <= k\<close> and \<^verbatim>\<open>x < k\<close> are false when \<^verbatim>\<open>x\<close> is \<^verbatim>\<open>undefined\<close>, and
  \<^verbatim>\<open>Number.isInteger(undefined)\<close> is false.
\<close>

definition js_le :: "real option \<Rightarrow> real \<Rightarrow> bool" where
  "js_le v k = (case v of None \<Rightarrow> False | Some r \<Rightarrow> r \<le> k)"

definition js_lt :: "real option \<Rightarrow> real \<Rightarrow> bool" where
  "js_lt v k = (case v of None \<Rightarrow> False | Some r \<Rightarrow> r < k)"

definition Number_isInteger :: "real option \<Rightarrow> bool" where
  "Number_isInteger v = (case v of None \<Rightarrow> False | Some r \<Rightarrow> real_of_int \<lfloor>r\<rfloor> = r)"

definition serialize :: "BloomSift \<Rightarrow> SerializedBloomSift" where
  "serialize f =
     (let binaryString = map (\<lambda>byte. char_of (unat byte)) (bits f);
          b = btoa binaryString
      in \<lparr> s_bits = Some b,
           s_size = Some (real_of_int (f_size f)),
           s_hashCount = Some (real_of_int (f_hashCount f)),
           s_count = Some (real_of_int (f_count f)),
           s_capacity = None \<rparr>)"

text \<open>
  The argument is \<open>None\<close> for a falsy \<^verbatim>\<open>data\<close> (\<^verbatim>\<open>null\<close>, \<^verbatim>\<open>undefined\<close>). After the four
  checks the numeric fields are integers, so \<open>the\<close> and the floor below read them
  exactly. \<^verbatim>\<open>data.count || 1\<close> is \<^verbatim>\<open>data.count\<close> unless that is 0.
\<close>

definition deserialize :: "SerializedBloomSift option \<Rightarrow> error + BloomSift" where
  "deserialize data =
     (case data of
        None \<Rightarrow> Inl (Error ''Invalid serialized data: missing bits'')
      | Some d \<Rightarrow>
     (case s_bits d of
        None \<Rightarrow> Inl (Error ''Invalid serialized data: missing bits'')
      | Some b \<Rightarrow>
        if js_le (s_size d) 0 \<or> \<not> Number_isInteger (s_size d)
          then Inl (Error ''Invalid serialized data: size must be a positive integer'')
        else if js_le (s_hashCount d) 0 \<or> \<not> Number_isInteger (s_hashCount d)
          then Inl (Error ''Invalid serialized data: hashCount must be a positive integer'')
        else if js_lt (s_count d) 0 \<or> \<not> Number_isInteger (s_count d)
          then Inl (Error ''Invalid serialized data: count must be a non-negative integer'')
        else
     (case atob b of
        None \<Rightarrow> Inl InvalidCharacterError
      | Some binaryString \<Rightarrow>
          let bs = map (\<lambda>c. (of_char c :: byte)) binaryString;
              expectedBytes = \<lceil>the (s_size d) / 8\<rceil>
          in if int (length bs) \<noteq> expectedBytes
             then Inl (Error (''Invalid serialized data: expected ''
                     @ Number_toString expectedBytes @ '' bytes, got ''
                     @ Number_toString (int (length bs))))
             else
     (case new_BloomSift 1 (1 / 2) of
        Inl e \<Rightarrow> Inl e
      | Inr instance \<Rightarrow>
          Inr (instance\<lparr> bits := bs,
                         f_size := \<lfloor>the (s_size d)\<rfloor>,
                         f_hashCount := \<lfloor>the (s_hashCount d)\<rfloor>,
                         f_capacity := (if the (s_count d) \<noteq> 0 then the (s_count d) else 1),
                         f_count := \<lfloor>the (s_count d)\<rfloor> \<rparr>)))))"

subsection \<open>Vocabulary of the specification\<close>

text \<open>
  The specification speaks of fields that are a positive integer or a non-negative
  integer. These two predicates say it in its words; the code's own tests are
  \<open>js_le\<close>, \<open>js_lt\<close> and \<open>Number_isInteger\<close> above.
\<close>

definition positive_integer :: "real option \<Rightarrow> bool" where
  "positive_integer v = (case v of None \<Rightarrow> False | Some r \<Rightarrow> 0 < r \<and> r \<in> \<int>)"

definition non_negative_integer :: "real option \<Rightarrow> bool" where
  "non_negative_integer v = (case v of None \<Rightarrow> False | Some r \<Rightarrow> 0 \<le> r \<and> r \<in> \<int>)"

subsection \<open>Validly constructed filters\<close>

text \<open>
  A filter is validly constructed when it comes from the constructor or from
  \<open>deserialize\<close>, possibly followed by calls of \<open>add\<close> that returned and of
  \<open>clear\<close>. Every such
  filter is well formed: its size is positive and its byte array has
  \<open>\<lceil>size / 8\<rceil>\<close> bytes.
\<close>

inductive constructed :: "hashfn \<Rightarrow> BloomSift \<Rightarrow> bool" for H :: hashfn where
  by_new: "new_BloomSift capacity errorRate = Inr f \<Longrightarrow> constructed H f"
| by_deserialize: "deserialize data = Inr f \<Longrightarrow> constructed H f"
| by_add: "constructed H f \<Longrightarrow> add H f x = Some (Inr f') \<Longrightarrow> constructed H f'"
| by_clear: "constructed H f \<Longrightarrow> constructed H (clear f)"

definition well_formed :: "BloomSift \<Rightarrow> bool" where
  "well_formed f =
     (0 < f_size f \<and> int (length (bits f)) = \<lceil>real_of_int (f_size f) / 8\<rceil>)"

section \<open>Bounds on logarithms\<close>

text \<open>
  \<open>ln\<close> is bounded through \<open>exp\<close>: for \<open>0 \<le> x \<le> 1\<close> the Taylor polynomial of
  degree \<open>n - 1\<close> is below \<open>exp x\<close>, and adding \<open>3 x\<^sup>n / n!\<close> puts it above.
\<close>

lemma exp_taylor_bounds:
  fixes x :: real
  assumes "0 \<le> x" "x \<le> 1"
  shows "(\<Sum>m<n. x ^ m / fact m) \<le> exp x"
    and "exp x \<le> (\<Sum>m<n. x ^ m / fact m) + 3 * x ^ n / fact n"
proof -
  obtain t where t: "\<bar>t\<bar> \<le> \<bar>x\<bar>"
    and e: "exp x = (\<Sum>m<n. x ^ m / fact m) + exp t / fact n * x ^ n"
    using Maclaurin_exp_le [of x n] by blast
  have "0 \<le> exp t / fact n * x ^ n" using assms by simp
  then show "(\<Sum>m<n. x ^ m / fact m) \<le> exp x" using e by linarith
  have "t \<le> 1" using t assms by linarith
  then have "exp t \<le> exp 1" by simp
  then have "exp t \<le> 3" using exp_le by linarith
  then have "exp t * x ^ n \<le> 3 * x ^ n" using assms by (intro mult_right_mono) simp_all
  then have "exp t / fact n * x ^ n \<le> 3 * x ^ n / fact n"
    by (simp add: divide_right_mono)
  then show "exp x \<le> (\<Sum>m<n. x ^ m / fact m) + 3 * x ^ n / fact n" using e by linarith
qed

lemma taylor13:
  "(\<Sum>m<13. (q::real) ^ m / fact m)
     = 1 + q + q^2/2 + q^3/6 + q^4/24 + q^5/120 + q^6/720 + q^7/5040 + q^8/40320
       + q^9/362880 + q^10/3628800 + q^11/39916800 + q^12/479001600"
  by (simp add: eval_nat_numeral lessThan_Suc fact_numeral)

lemma ln_lower_by_exp:
  fixes q a :: real
  assumes "0 \<le> q" "q \<le> 1"
    and "1 + q + q^2/2 + q^3/6 + q^4/24 + q^5/120 + q^6/720 + q^7/5040 + q^8/40320
       + q^9/362880 + q^10/3628800 + q^11/39916800 + q^12/479001600 + q^13/2075673600 < a"
  shows "q < ln a"
proof -
  have "exp q \<le> (\<Sum>m<13. q ^ m / fact m) + 3 * q ^ 13 / fact 13"
    using assms(1,2) by (rule exp_taylor_bounds)
  also have "\<dots> = 1 + q + q^2/2 + q^3/6 + q^4/24 + q^5/120 + q^6/720 + q^7/5040 + q^8/40320
       + q^9/362880 + q^10/3628800 + q^11/39916800 + q^12/479001600 + q^13/2075673600"
    unfolding taylor13 by (simp add: fact_numeral)
  finally have "exp q < a" using assms(3) by linarith
  moreover have "0 < a" using \<open>exp q < a\<close> exp_gt_zero [of q] by linarith
  ultimately have "ln (exp q) < ln a" by (subst ln_less_cancel_iff) simp_all
  then show ?thesis by simp
qed

lemma ln_upper_by_exp:
  fixes q a :: real
  assumes "0 \<le> q" "q \<le> 1" "0 < a"
    and "a < 1 + q + q^2/2 + q^3/6 + q^4/24 + q^5/120 + q^6/720 + q^7/5040 + q^8/40320
       + q^9/362880 + q^10/3628800 + q^11/39916800 + q^12/479001600"
  shows "ln a < q"
proof -
  have "(\<Sum>m<13. q ^ m / fact m) \<le> exp q"
    using assms(1,2) by (rule exp_taylor_bounds)
  then have "a < exp q" using assms(4) unfolding taylor13 by linarith
  then have "ln a < ln (exp q)" using assms(3) by (subst ln_less_cancel_iff) simp_all
  then show ?thesis by simp
qed

lemma ln2_lower: "6931471 / 10000000 < ln (2::real)"
  by (rule ln_lower_by_exp) (simp_all add: power_divide)

lemma ln2_upper: "ln (2::real) < 6931472 / 10000000"
  by (rule ln_upper_by_exp) (simp_all add: power_divide)

lemma ln54_lower: "2231435 / 10000000 < ln (5 / 4 :: real)"
  by (rule ln_lower_by_exp) (simp_all add: power_divide)

lemma ln54_upper: "ln (5 / 4 :: real) < 2231436 / 10000000"
  by (rule ln_upper_by_exp) (simp_all add: power_divide)

lemma ln109_lower: "105 / 1000 < ln (10 / 9 :: real)"
  by (rule ln_lower_by_exp) (simp_all add: power_divide)

lemma ln109_upper: "ln (10 / 9 :: real) < 1055 / 10000"
  by (rule ln_upper_by_exp) (simp_all add: power_divide)

lemma ln10_eq: "ln (10::real) = 3 * ln 2 + ln (5 / 4)"
proof -
  have "ln (10::real) = ln (2 * (2 * (2 * (5 / 4))))" by simp
  also have "\<dots> = ln 2 + (ln 2 + (ln 2 + ln (5 / 4)))"
    by (simp only: ln_mult_pos)
  finally show ?thesis by simp
qed

lemma ln10_bounds: "23025848 / 10000000 < ln (10::real)" "ln (10::real) < 23025852 / 10000000"
  unfolding ln10_eq using ln2_lower ln2_upper ln54_lower ln54_upper by linarith+

lemma ln2_sq_bounds:
  "(6931471 / 10000000)\<^sup>2 < ln 2 * ln (2::real)"
  "ln 2 * ln (2::real) < (6931472 / 10000000)\<^sup>2"
proof -
  have p: "0 < ln (2::real)" by simp
  show "(6931471 / 10000000)\<^sup>2 < ln 2 * ln (2::real)"
    unfolding power2_eq_square using ln2_lower by (intro mult_strict_mono) simp_all
  show "ln 2 * ln (2::real) < (6931472 / 10000000)\<^sup>2"
    unfolding power2_eq_square using ln2_upper p by (intro mult_strict_mono) simp_all
qed

text \<open>The quotient \<open>a / (ln 2)\<^sup>2\<close> from bounds on \<open>a\<close>.\<close>

lemma ceiling_over_ln2_sq:
  fixes a :: real and k :: int
  assumes "real_of_int (k - 1) * (6931472 / 10000000)\<^sup>2 < a"
    and "a \<le> real_of_int k * (6931471 / 10000000)\<^sup>2" and "0 < k"
  shows "\<lceil>a / (ln 2 * ln 2)\<rceil> = k"
proof -
  have p: "0 < ln 2 * ln (2::real)" by simp
  have "real_of_int (k - 1) * (ln 2 * ln 2) \<le> real_of_int (k - 1) * (6931472 / 10000000)\<^sup>2"
    using ln2_sq_bounds(2) assms(3) by (intro mult_left_mono) simp_all
  then have lo: "real_of_int (k - 1) * (ln 2 * ln 2) < a"
    using assms(1) by linarith
  have "real_of_int k * (6931471 / 10000000)\<^sup>2 < real_of_int k * (ln 2 * ln 2)"
    using ln2_sq_bounds(1) assms(3) by (intro mult_strict_left_mono) simp_all
  then have hi: "a < real_of_int k * (ln 2 * ln 2)" using assms(2) by linarith
  have "real_of_int k - 1 < a / (ln 2 * ln 2)"
    using lo p by (simp add: pos_less_divide_eq)
  moreover have "a / (ln 2 * ln 2) \<le> real_of_int k"
    using hi p by (simp add: pos_divide_le_eq less_imp_le)
  ultimately show ?thesis by (simp add: ceiling_eq_iff)
qed

lemma round_times_ln2:
  fixes c :: real and k :: int
  assumes "0 \<le> c" "real_of_int k - 1 / 2 \<le> c * (6931471 / 10000000)"
    and "c * (6931472 / 10000000) \<le> real_of_int k + 1 / 2"
  shows "round (c * ln 2) = k"
proof (cases "c = 0")
  case True
  then show ?thesis using assms by (simp add: round_def floor_eq_iff)
next
  case False
  then have c: "0 < c" using assms(1) by simp
  have "c * (6931471 / 10000000) < c * ln 2"
    using ln2_lower c by (intro mult_strict_left_mono)
  moreover have "c * ln 2 < c * (6931472 / 10000000)"
    using ln2_upper c by (intro mult_strict_left_mono)
  ultimately show ?thesis using assms(2,3) by (simp add: round_def floor_eq_iff)
qed

section \<open>Values of calculateOptimalParams\<close>

lemma ln_1_100: "ln (1 / 100 :: real) = - (2 * ln 10)"
proof -
  have "ln (1 / 100 :: real) = - ln 100" by (simp add: ln_div)
  also have "ln (100::real) = ln (10 * 10)" by simp
  also have "\<dots> = ln 10 + ln 10" by (simp only: ln_mult_pos)
  finally show ?thesis by simp
qed

lemma ln_1_1000: "ln (1 / 1000 :: real) = - (3 * ln 10)"
proof -
  have "ln (1 / 1000 :: real) = - ln 1000" by (simp add: ln_div)
  also have "ln (1000::real) = ln (10 * (10 * 10))" by simp
  also have "\<dots> = ln 10 + (ln 10 + ln 10)" by (simp only: ln_mult_pos)
  finally show ?thesis by simp
qed

lemma ln_9_10: "ln (9 / 10 :: real) = - ln (10 / 9)"
proof -
  have "ln (9 / 10 :: real) = ln (inverse (10 / 9))" by simp
  also have "\<dots> = - ln (10 / 9)" by (rule ln_inverse)
  finally show ?thesis .
qed

lemma ln_1_2: "ln (1 / 2 :: real) = - ln 2"
  by (simp add: ln_div)

lemma params_1000_001: "calculateOptimalParams 1000 (1 / 100) = (9586, 7)"
proof -
  have s: "\<lceil>(- 1000 * ln (1 / 100 :: real)) / (ln 2 * ln 2)\<rceil> = 9586"
    unfolding ln_1_100 using ln10_bounds
    by (intro ceiling_over_ln2_sq) (simp_all add: power2_eq_square)
  have h: "round ((real_of_int 9586 / 1000) * ln 2) = 7"
    by (rule round_times_ln2) simp_all
  show ?thesis
    unfolding calculateOptimalParams_def Let_def s h ..
qed

lemma params_100_0001: "calculateOptimalParams 100 (1 / 1000) = (1438, 10)"
proof -
  have s: "\<lceil>(- 100 * ln (1 / 1000 :: real)) / (ln 2 * ln 2)\<rceil> = 1438"
    unfolding ln_1_1000 using ln10_bounds
    by (intro ceiling_over_ln2_sq) (simp_all add: power2_eq_square)
  have h: "round ((real_of_int 1438 / 100) * ln 2) = 10"
    by (rule round_times_ln2) simp_all
  show ?thesis
    unfolding calculateOptimalParams_def Let_def s h ..
qed

lemma params_100_09: "calculateOptimalParams 100 (9 / 10) = (22, 0)"
proof -
  have s: "\<lceil>(- 100 * ln (9 / 10 :: real)) / (ln 2 * ln 2)\<rceil> = 22"
    unfolding ln_9_10 using ln109_lower ln109_upper
    by (intro ceiling_over_ln2_sq) (simp_all add: power2_eq_square)
  have h: "round ((real_of_int 22 / 100) * ln 2) = 0"
    by (rule round_times_ln2) simp_all
  show ?thesis
    unfolding calculateOptimalParams_def Let_def s h ..
qed

lemma params_minus1_half: "calculateOptimalParams (- 1) (1 / 2) = (- 1, 1)"
proof -
  have p: "0 < ln (2::real)" by simp
  have e: "(- (- 1) * ln (1 / 2 :: real)) / (ln 2 * ln 2) = - (1 / ln 2)"
    unfolding ln_1_2 using p by (simp add: field_simps)
  have "1 / ln (2::real) < 2" using ln2_lower p by (simp add: field_simps)
  moreover have "1 \<le> 1 / ln (2::real)" using ln2_upper p by (simp add: field_simps)
  ultimately have s: "\<lceil>(- (- 1) * ln (1 / 2 :: real)) / (ln 2 * ln 2)\<rceil> = - 1"
    unfolding e by (simp add: ceiling_eq_iff)
  have h: "round ((real_of_int (- 1) / (- 1)) * ln 2) = 1"
    using ln2_lower ln2_upper by (simp add: round_def floor_eq_iff)
  show ?thesis
    unfolding calculateOptimalParams_def Let_def s h ..
qed


section \<open>base64: decoding an encoding gives the bytes back\<close>

lemma length_base64_alphabet: "length base64_alphabet = 64"
  by (simp add: base64_alphabet_def)

lemma distinct_base64_alphabet: "distinct base64_alphabet"
  by (simp add: base64_alphabet_def)

lemma pad_not_in_alphabet: "CHR ''='' \<notin> set base64_alphabet"
  by (simp add: base64_alphabet_def)

lemma whitespace_not_in_alphabet: "c \<in> set base64_alphabet \<Longrightarrow> \<not> ascii_whitespace c"
  by (auto simp: base64_alphabet_def ascii_whitespace_def)

lemma b64_char_in_alphabet: "n < 64 \<Longrightarrow> b64_char n \<in> set base64_alphabet"
  by (simp add: b64_char_def length_base64_alphabet)

lemma b64_char_not_pad: "n < 64 \<Longrightarrow> b64_char n \<noteq> CHR ''=''"
  using b64_char_in_alphabet pad_not_in_alphabet by metis

lemma b64_char_not_whitespace: "n < 64 \<Longrightarrow> \<not> ascii_whitespace (b64_char n)"
  using b64_char_in_alphabet whitespace_not_in_alphabet by blast

lemma takeWhile_neq_nth:
  "distinct xs \<Longrightarrow> n < length xs \<Longrightarrow> length (takeWhile (\<lambda>a. a \<noteq> xs ! n) xs) = n"
proof (induction xs arbitrary: n)
  case Nil
  then show ?case by simp
next
  case (Cons x xs)
  show ?case
  proof (cases n)
    case 0
    then show ?thesis by simp
  next
    case (Suc k)
    with Cons.prems have "k < length xs" "x \<noteq> xs ! k" "distinct xs" by auto
    with Cons.IH [of k] Suc show ?thesis by simp
  qed
qed

lemma b64_index_char: "n < 64 \<Longrightarrow> b64_index (b64_char n) = n"
  unfolding b64_index_def b64_char_def
  by (rule takeWhile_neq_nth) (simp_all add: distinct_base64_alphabet length_base64_alphabet)

lemma div_bound: "(x::nat) < 256 \<Longrightarrow> x div 4 < 64 \<and> x div 16 < 16 \<and> x div 64 < 4"
  by (simp add: less_mult_imp_div_less)

lemma sextet_bounds:
  fixes x y z :: nat
  assumes "x < 256" "y < 256" "z < 256"
  shows "x div 4 < 64" "(x mod 4) * 16 < 64" "(x mod 4) * 16 + y div 16 < 64"
    "(y mod 16) * 4 < 64" "(y mod 16) * 4 + z div 64 < 64" "z mod 64 < 64"
proof -
  have a: "x mod 4 \<le> 3" "y mod 16 \<le> 15" by simp_all
  have b: "y div 16 < 16" "z div 64 < 4" "x div 4 < 64"
    using assms div_bound by blast+
  show "x div 4 < 64" by (rule b)
  show "(x mod 4) * 16 < 64" using a by linarith
  show "(x mod 4) * 16 + y div 16 < 64" using a b by linarith
  show "(y mod 16) * 4 < 64" using a by linarith
  show "(y mod 16) * 4 + z div 64 < 64" using a b by linarith
  show "z mod 64 < 64" by simp
qed

lemma bytes_of_sextets:
  fixes x y z :: nat
  assumes "x < 256" "y < 256" "z < 256"
  shows "(x div 4) * 4 + ((x mod 4) * 16 + y div 16) div 16 = x"
    "(((x mod 4) * 16 + y div 16) mod 16) * 16 + ((y mod 16) * 4 + z div 64) div 4 = y"
    "(((y mod 16) * 4 + z div 64) mod 4) * 64 + z mod 64 = z"
    "(x div 4) * 4 + ((x mod 4) * 16) div 16 = x"
    "(((x mod 4) * 16 + y div 16) mod 16) * 16 + ((y mod 16) * 4) div 4 = y"
proof -
  have b: "y div 16 < 16" "z div 64 < 4"
    using assms div_bound by blast+
  have q1: "((x mod 4) * 16 + y div 16) div 16 = x mod 4" using b by simp
  have q2: "((x mod 4) * 16 + y div 16) mod 16 = y div 16" using b by simp
  have r1: "((y mod 16) * 4 + z div 64) div 4 = y mod 16" using b by simp
  have r2: "((y mod 16) * 4 + z div 64) mod 4 = z div 64" using b by simp
  show "(x div 4) * 4 + ((x mod 4) * 16 + y div 16) div 16 = x"
    unfolding q1 by simp
  show "(((x mod 4) * 16 + y div 16) mod 16) * 16 + ((y mod 16) * 4 + z div 64) div 4 = y"
    unfolding q2 r1 by simp
  show "(((y mod 16) * 4 + z div 64) mod 4) * 64 + z mod 64 = z"
    unfolding r2 by simp
  show "(x div 4) * 4 + ((x mod 4) * 16) div 16 = x" by simp
  show "(((x mod 4) * 16 + y div 16) mod 16) * 16 + ((y mod 16) * 4) div 4 = y"
    unfolding q2 by simp
qed

lemma of_char_sextets:
  "(of_char a :: nat) div 4 < 64"
  "((of_char a :: nat) mod 4) * 16 < 64"
  "((of_char a :: nat) mod 4) * 16 + (of_char b :: nat) div 16 < 64"
  "((of_char b :: nat) mod 16) * 4 < 64"
  "((of_char b :: nat) mod 16) * 4 + (of_char c :: nat) div 64 < 64"
  "(of_char c :: nat) mod 64 < 64"
  using sextet_bounds [of "of_char a" "of_char b" "of_char c"] by simp_all

lemma length_btoa_mod4: "length (btoa s) mod 4 = 0"
  by (induction s rule: btoa.induct) (simp_all add: Let_def)

lemma btoa_no_whitespace: "filter (\<lambda>c. \<not> ascii_whitespace c) (btoa s) = btoa s"
proof (induction s rule: btoa.induct)
  case 1
  then show ?case by simp
next
  case (2 a)
  have "\<not> ascii_whitespace CHR ''=''" by (simp add: ascii_whitespace_def)
  then show ?case
    by (simp add: Let_def b64_char_not_whitespace of_char_sextets)
next
  case (3 a b)
  have "\<not> ascii_whitespace CHR ''=''" by (simp add: ascii_whitespace_def)
  then show ?case
    by (simp add: Let_def b64_char_not_whitespace of_char_sextets)
next
  case (4 a b c rest)
  then show ?case
    by (simp add: Let_def b64_char_not_whitespace of_char_sextets)
qed

lemma strip_padding_Nil: "strip_padding [] = []"
  by (simp add: strip_padding_def)

lemma strip_padding_pad2:
  "strip_padding [c1, c2, CHR ''='', CHR ''=''] = [c1, c2]"
  by (simp add: strip_padding_def)

lemma strip_padding_pad1:
  "c3 \<noteq> CHR ''='' \<Longrightarrow> strip_padding [c1, c2, c3, CHR ''=''] = [c1, c2, c3]"
  by (simp add: strip_padding_def)

lemma strip_padding_quad_last:
  "c4 \<noteq> CHR ''='' \<Longrightarrow> strip_padding [c1, c2, c3, c4] = [c1, c2, c3, c4]"
  by (simp add: strip_padding_def)

lemma strip_padding_quad_more:
  assumes "length e mod 4 = 0" "e \<noteq> []"
  shows "strip_padding (c1 # c2 # c3 # c4 # e) = c1 # c2 # c3 # c4 # strip_padding e"
proof -
  from assms have "0 < length e" by simp
  with assms(1) have "4 \<le> length e" by presburger
  then obtain n where n: "length e = n + 4"
    using le_Suc_ex [of 4 "length e"] by (auto simp: add.commute)
  have l: "length (c1 # c2 # c3 # c4 # e) mod 4 = 0" using assms(1) by simp
  have d2: "drop (length (c1 # c2 # c3 # c4 # e) - 2) (c1 # c2 # c3 # c4 # e) = drop (length e - 2) e"
    using n by (simp add: drop_Cons')
  have d1: "drop (length (c1 # c2 # c3 # c4 # e) - 1) (c1 # c2 # c3 # c4 # e) = drop (length e - 1) e"
    using n by (simp add: drop_Cons')
  have t2: "take (length (c1 # c2 # c3 # c4 # e) - 2) (c1 # c2 # c3 # c4 # e)
      = c1 # c2 # c3 # c4 # take (length e - 2) e"
    using n by (simp add: take_Cons')
  have t1: "take (length (c1 # c2 # c3 # c4 # e) - 1) (c1 # c2 # c3 # c4 # e)
      = c1 # c2 # c3 # c4 # take (length e - 1) e"
    using n by (simp add: take_Cons')
  show ?thesis
    unfolding strip_padding_def [of "c1 # c2 # c3 # c4 # e"] strip_padding_def [of e]
    unfolding d2 d1 t2 t1 using l assms(1) n by simp
qed

text \<open>The encoding without its padding, as atob sees it after stripping.\<close>

lemma stripped_btoa_simps:
  "strip_padding (btoa []) = []"
  "strip_padding (btoa [a]) =
     [b64_char ((of_char a :: nat) div 4), b64_char (((of_char a :: nat) mod 4) * 16)]"
  "strip_padding (btoa [a, b]) =
     [b64_char ((of_char a :: nat) div 4),
      b64_char (((of_char a :: nat) mod 4) * 16 + (of_char b :: nat) div 16),
      b64_char (((of_char b :: nat) mod 16) * 4)]"
  "strip_padding (btoa (a # b # c # rest)) =
     [b64_char ((of_char a :: nat) div 4),
      b64_char (((of_char a :: nat) mod 4) * 16 + (of_char b :: nat) div 16),
      b64_char (((of_char b :: nat) mod 16) * 4 + (of_char c :: nat) div 64),
      b64_char ((of_char c :: nat) mod 64)] @ strip_padding (btoa rest)"
proof -
  show "strip_padding (btoa []) = []" by (simp add: strip_padding_Nil)
  show "strip_padding (btoa [a]) =
     [b64_char ((of_char a :: nat) div 4), b64_char (((of_char a :: nat) mod 4) * 16)]"
    by (simp add: Let_def strip_padding_pad2)
  show "strip_padding (btoa [a, b]) =
     [b64_char ((of_char a :: nat) div 4),
      b64_char (((of_char a :: nat) mod 4) * 16 + (of_char b :: nat) div 16),
      b64_char (((of_char b :: nat) mod 16) * 4)]"
    by (simp add: Let_def strip_padding_pad1 b64_char_not_pad of_char_sextets)
  show "strip_padding (btoa (a # b # c # rest)) =
     [b64_char ((of_char a :: nat) div 4),
      b64_char (((of_char a :: nat) mod 4) * 16 + (of_char b :: nat) div 16),
      b64_char (((of_char b :: nat) mod 16) * 4 + (of_char c :: nat) div 64),
      b64_char ((of_char c :: nat) mod 64)] @ strip_padding (btoa rest)"
  proof (cases "btoa rest = []")
    case True
    then show ?thesis
      by (simp add: Let_def strip_padding_Nil strip_padding_quad_last b64_char_not_pad
          of_char_sextets)
  next
    case False
    then show ?thesis
      by (simp add: Let_def strip_padding_quad_more length_btoa_mod4)
  qed
qed

lemma triples_induct [case_names Nil One Two More]:
  assumes "P []" "\<And>a. P [a]" "\<And>a b. P [a, b]"
    and "\<And>a b c rest. P rest \<Longrightarrow> P (a # b # c # rest)"
  shows "P (s :: string)"
  using assms by (induction s rule: btoa.induct) simp_all

lemma stripped_btoa_alphabet:
  "list_all (\<lambda>c. c \<in> set base64_alphabet) (strip_padding (btoa s))"
  by (induction s rule: triples_induct)
    (simp_all del: btoa.simps add: stripped_btoa_simps b64_char_in_alphabet of_char_sextets)

lemma stripped_btoa_length: "length (strip_padding (btoa s)) mod 4 \<noteq> 1"
  by (induction s rule: triples_induct) (simp_all del: btoa.simps add: stripped_btoa_simps)

lemma decode_quad:
  fixes x y z :: nat
  assumes "x < 256" "y < 256" "z < 256"
  shows "sextets_to_bytes (x div 4 # ((x mod 4) * 16 + y div 16)
           # ((y mod 16) * 4 + z div 64) # (z mod 64) # rest)
         = x # y # z # sextets_to_bytes rest"
  unfolding sextets_to_bytes.simps bytes_of_sextets [OF assms] by simp

lemma decode_pair:
  fixes x :: nat
  assumes "x < 256"
  shows "sextets_to_bytes [x div 4, (x mod 4) * 16] = [x]"
  unfolding sextets_to_bytes.simps bytes_of_sextets [OF assms assms assms] by simp

lemma decode_triple:
  fixes x y :: nat
  assumes "x < 256" "y < 256"
  shows "sextets_to_bytes [x div 4, (x mod 4) * 16 + y div 16, (y mod 16) * 4] = [x, y]"
  unfolding sextets_to_bytes.simps bytes_of_sextets [OF assms assms(1)] by simp

lemma decode_Nil: "sextets_to_bytes [] = []"
  by simp

lemma stripped_btoa_decode:
  "map char_of (sextets_to_bytes (map b64_index (strip_padding (btoa s)))) = s"
  by (induction s rule: triples_induct)
    (simp_all del: btoa.simps sextets_to_bytes.simps
       add: stripped_btoa_simps b64_index_char of_char_sextets
         decode_quad decode_pair decode_triple decode_Nil)

lemma atob_btoa: "atob (btoa s) = Some s"
  unfolding atob_def btoa_no_whitespace
  by (simp add: Let_def stripped_btoa_length [simplified] stripped_btoa_alphabet
      stripped_btoa_decode)

section \<open>Properties of deserialize\<close>

lemma floor_eq_iff_Ints: "(real_of_int \<lfloor>r\<rfloor> = r) = (r \<in> \<int>)"
  by (metis Ints_of_int floor_of_int Ints_cases)

lemma size_check_iff:
  "(js_le v 0 \<or> \<not> Number_isInteger v) = (\<not> positive_integer v)"
  by (cases v) (auto simp: js_le_def Number_isInteger_def positive_integer_def elim: Ints_cases)

lemma count_check_iff:
  "(js_lt v 0 \<or> \<not> Number_isInteger v) = (\<not> non_negative_integer v)"
  by (cases v)
    (auto simp: js_lt_def Number_isInteger_def non_negative_integer_def elim: Ints_cases)

lemma new_default_instance: "\<exists>i. new_BloomSift 1 (1 / 2) = Inr i"
  by (simp add: new_BloomSift_def split: prod.split)

lemma overwrite_all_fields:
  "(i::BloomSift)\<lparr> bits := b, f_size := s, f_hashCount := h, f_capacity := c, f_count := n \<rparr>
     = \<lparr> bits = b, f_size = s, f_hashCount = h, f_capacity = c, f_count = n \<rparr>"
  by (cases i) simp

lemma byte_of_char_of_nat: "(of_char (char_of (n::nat)) :: byte) = of_nat n"
proof -
  have "(of_char (char_of n) :: byte) = of_nat (of_char (char_of n) :: nat)"
    by (simp only: of_nat_of_char)
  also have "\<dots> = of_nat (n mod 256)" by (simp only: of_char_of)
  also have "\<dots> = of_nat n"
    by (simp add: word_of_nat_eq_iff take_bit_eq_mod)
  finally show ?thesis .
qed

text \<open>What \<open>deserialize\<close> does once the four field checks have passed.\<close>

lemma deserialize_checked:
  assumes "s_bits d = Some b" "positive_integer (s_size d)" "positive_integer (s_hashCount d)"
    "non_negative_integer (s_count d)"
  shows "deserialize (Some d) =
     (case atob b of
        None \<Rightarrow> Inl InvalidCharacterError
      | Some str \<Rightarrow>
          if int (length str) \<noteq> \<lceil>the (s_size d) / 8\<rceil>
          then Inl (Error (''Invalid serialized data: expected ''
                  @ Number_toString \<lceil>the (s_size d) / 8\<rceil> @ '' bytes, got ''
                  @ Number_toString (int (length str))))
          else Inr \<lparr> bits = map of_char str,
                     f_size = \<lfloor>the (s_size d)\<rfloor>,
                     f_hashCount = \<lfloor>the (s_hashCount d)\<rfloor>,
                     f_capacity = (if the (s_count d) \<noteq> 0 then the (s_count d) else 1),
                     f_count = \<lfloor>the (s_count d)\<rfloor> \<rparr>)"
proof -
  obtain i where i: "new_BloomSift 1 (1 / 2) = Inr i" using new_default_instance by blast
  have c1: "\<not> (js_le (s_size d) 0 \<or> \<not> Number_isInteger (s_size d))"
    using assms(2) by (simp only: size_check_iff) simp
  have c2: "\<not> (js_le (s_hashCount d) 0 \<or> \<not> Number_isInteger (s_hashCount d))"
    using assms(3) by (simp only: size_check_iff) simp
  have c3: "\<not> (js_lt (s_count d) 0 \<or> \<not> Number_isInteger (s_count d))"
    using assms(4) by (simp only: count_check_iff) simp
  show ?thesis
    unfolding deserialize_def using c1 c2 c3
    by (simp add: assms(1) i overwrite_all_fields Let_def split: option.split)
qed

lemma deserialize_Inr_checks:
  assumes "deserialize (Some d) = Inr f"
  shows "s_bits d \<noteq> None \<and> positive_integer (s_size d) \<and> positive_integer (s_hashCount d)
     \<and> non_negative_integer (s_count d)"
  using assms unfolding deserialize_def size_check_iff count_check_iff
  by (auto split: option.splits if_splits)

lemma atob_AA: "atob ''AA=='' = Some [char_of (0::nat)]"
  by (simp add: atob_def strip_padding_def ascii_whitespace_def base64_alphabet_def
      b64_index_def)

text \<open>
  C9. For every record that \<open>deserialize\<close> accepts, the restored filter's capacity is
  the record's count when that is not zero and 1 otherwise. Hence its fill ratio is 1
  when the count is positive and 0 when the count is 0, whatever the fill ratio of the
  filter that was serialized.
\<close>

theorem deserialize_capacity_fillRatio:
  assumes "deserialize (Some d) = Inr f"
  shows "\<exists>c. s_count d = Some c \<and> 0 \<le> c
           \<and> f_capacity f = (if c \<noteq> 0 then c else 1)
           \<and> (0 < c \<longrightarrow> fillRatio f = 1)
           \<and> (c = 0 \<longrightarrow> fillRatio f = 0)"
proof -
  from assms have chk: "s_bits d \<noteq> None" "positive_integer (s_size d)"
    "positive_integer (s_hashCount d)" "non_negative_integer (s_count d)"
    using deserialize_Inr_checks by blast+
  then obtain b where b: "s_bits d = Some b" by blast
  from chk(4) obtain c where c: "s_count d = Some c" "0 \<le> c" "c \<in> \<int>"
    by (auto simp: non_negative_integer_def split: option.splits)
  have fl: "real_of_int \<lfloor>c\<rfloor> = c" using c(3) by (simp add: floor_eq_iff_Ints)
  have "f_capacity f = (if c \<noteq> 0 then c else 1) \<and> f_count f = \<lfloor>c\<rfloor>"
    using assms unfolding deserialize_checked [OF b chk(2,3,4)]
    by (auto simp: c split: option.splits if_splits)
  then show ?thesis
    using c fl by (auto simp: fillRatio_def)
qed

theorem deserialize_capacity_fillRatio_witness:
  "(deserialize (Some \<lparr> s_bits = Some ''AA=='', s_size = Some 8, s_hashCount = Some 7,
        s_count = Some 5, s_capacity = None \<rparr>)
     = Inr \<lparr> bits = [0], f_size = 8, f_hashCount = 7, f_capacity = 5, f_count = 5 \<rparr>)
   \<and> fillRatio \<lparr> bits = [0], f_size = 8, f_hashCount = 7, f_capacity = 5, f_count = 5 \<rparr> = 1"
proof -
  have d: "deserialize (Some \<lparr> s_bits = Some ''AA=='', s_size = Some 8, s_hashCount = Some 7,
        s_count = Some 5, s_capacity = None \<rparr>)
     = Inr \<lparr> bits = [0], f_size = 8, f_hashCount = 7, f_capacity = 5, f_count = 5 \<rparr>"
    by (subst deserialize_checked [where b = "''AA==''"])
       (simp_all add: positive_integer_def non_negative_integer_def atob_AA
          byte_of_char_of_nat)
  show ?thesis
    using d deserialize_capacity_fillRatio [OF d] by simp
qed

lemma deserialize_missing_bits:
  "s_bits d = None \<Longrightarrow>
     deserialize (Some d) = Inl (Error ''Invalid serialized data: missing bits'')"
  by (simp add: deserialize_def)

lemma deserialize_bad_size:
  "s_bits d = Some b \<Longrightarrow> \<not> positive_integer (s_size d) \<Longrightarrow>
     deserialize (Some d)
       = Inl (Error ''Invalid serialized data: size must be a positive integer'')"
  unfolding deserialize_def size_check_iff by simp

lemma deserialize_bad_hashCount:
  "s_bits d = Some b \<Longrightarrow> positive_integer (s_size d) \<Longrightarrow>
   \<not> positive_integer (s_hashCount d) \<Longrightarrow>
     deserialize (Some d)
       = Inl (Error ''Invalid serialized data: hashCount must be a positive integer'')"
  unfolding deserialize_def size_check_iff by simp

lemma deserialize_bad_count:
  "s_bits d = Some b \<Longrightarrow> positive_integer (s_size d) \<Longrightarrow>
   positive_integer (s_hashCount d) \<Longrightarrow> \<not> non_negative_integer (s_count d) \<Longrightarrow>
     deserialize (Some d)
       = Inl (Error ''Invalid serialized data: count must be a non-negative integer'')"
  unfolding deserialize_def size_check_iff count_check_iff by simp

lemma deserialize_bad_length:
  assumes "s_bits d = Some b" "positive_integer (s_size d)" "positive_integer (s_hashCount d)"
    "non_negative_integer (s_count d)" "atob b = Some str" "s_size d = Some n"
    "int (length str) \<noteq> \<lceil>n / 8\<rceil>"
  shows "deserialize (Some d)
       = Inl (Error (''Invalid serialized data: expected '' @ decimal (nat \<lceil>n / 8\<rceil>)
               @ '' bytes, got '' @ decimal (length str)))"
proof -
  have "0 < n" using assms(2,6) by (simp add: positive_integer_def)
  then have "0 \<le> \<lceil>n / 8\<rceil>" by simp
  then show ?thesis
    unfolding deserialize_checked [OF assms(1,2,3,4)]
    using assms(5,6,7) by (simp add: Number_toString_def)
qed

text \<open>
  C5. \<open>deserialize\<close> rejects malformed records, each with its own message, the checks
  being made in this order: \<open>bits\<close> missing or not a string; \<open>size\<close> not a positive
  integer; \<open>hashCount\<close> not a positive integer; \<open>count\<close> not a non-negative integer;
  decoded \<open>bits\<close> whose number of bytes \<open>M\<close> differs from \<open>N = \<lceil>size / 8\<rceil>\<close>
  (message "expected N bytes, got M", the numbers in decimal, which is what a template
  literal prints below \<open>10\<^sup>2\<^sup>1\<close>). Every message carries the prefix
  "Invalid serialized data: ".
\<close>

theorem deserialize_rejects_in_order:
  "deserialize None = Inl (Error ''Invalid serialized data: missing bits'')
   \<and> (s_bits d = None \<longrightarrow>
        deserialize (Some d) = Inl (Error ''Invalid serialized data: missing bits''))
   \<and> (s_bits d \<noteq> None \<and> \<not> positive_integer (s_size d) \<longrightarrow>
        deserialize (Some d)
          = Inl (Error ''Invalid serialized data: size must be a positive integer''))
   \<and> (s_bits d \<noteq> None \<and> positive_integer (s_size d)
        \<and> \<not> positive_integer (s_hashCount d) \<longrightarrow>
        deserialize (Some d)
          = Inl (Error ''Invalid serialized data: hashCount must be a positive integer''))
   \<and> (s_bits d \<noteq> None \<and> positive_integer (s_size d) \<and> positive_integer (s_hashCount d)
        \<and> \<not> non_negative_integer (s_count d) \<longrightarrow>
        deserialize (Some d)
          = Inl (Error ''Invalid serialized data: count must be a non-negative integer''))
   \<and> (\<forall>b str n. s_bits d = Some b \<and> positive_integer (s_size d)
        \<and> positive_integer (s_hashCount d) \<and> non_negative_integer (s_count d)
        \<and> atob b = Some str \<and> s_size d = Some n \<and> int (length str) \<noteq> \<lceil>n / 8\<rceil>
        \<and> \<lceil>n / 8\<rceil> < 10 ^ 21 \<longrightarrow>
        deserialize (Some d)
          = Inl (Error (''Invalid serialized data: expected '' @ decimal (nat \<lceil>n / 8\<rceil>)
                  @ '' bytes, got '' @ decimal (length str))))"
proof -
  have "deserialize None = Inl (Error ''Invalid serialized data: missing bits'')"
    by (simp add: deserialize_def)
  moreover have "s_bits d = None \<longrightarrow>
        deserialize (Some d) = Inl (Error ''Invalid serialized data: missing bits'')"
    by (simp add: deserialize_missing_bits)
  moreover have "s_bits d \<noteq> None \<and> \<not> positive_integer (s_size d) \<longrightarrow>
        deserialize (Some d)
          = Inl (Error ''Invalid serialized data: size must be a positive integer'')"
    using deserialize_bad_size by blast
  moreover have "s_bits d \<noteq> None \<and> positive_integer (s_size d)
        \<and> \<not> positive_integer (s_hashCount d) \<longrightarrow>
        deserialize (Some d)
          = Inl (Error ''Invalid serialized data: hashCount must be a positive integer'')"
    using deserialize_bad_hashCount by blast
  moreover have "s_bits d \<noteq> None \<and> positive_integer (s_size d)
        \<and> positive_integer (s_hashCount d) \<and> \<not> non_negative_integer (s_count d) \<longrightarrow>
        deserialize (Some d)
          = Inl (Error ''Invalid serialized data: count must be a non-negative integer'')"
    using deserialize_bad_count by blast
  moreover have "\<forall>b str n. s_bits d = Some b \<and> positive_integer (s_size d)
        \<and> positive_integer (s_hashCount d) \<and> non_negative_integer (s_count d)
        \<and> atob b = Some str \<and> s_size d = Some n \<and> int (length str) \<noteq> \<lceil>n / 8\<rceil>
        \<and> \<lceil>n / 8\<rceil> < 10 ^ 21 \<longrightarrow>
        deserialize (Some d)
          = Inl (Error (''Invalid serialized data: expected '' @ decimal (nat \<lceil>n / 8\<rceil>)
                  @ '' bytes, got '' @ decimal (length str)))"
    using deserialize_bad_length [of d] by blast
  ultimately show ?thesis by (intro conjI)
qed

theorem deserialize_rejects_in_order_witness:
  "deserialize (Some \<lparr> s_bits = None, s_size = None, s_hashCount = None, s_count = None,
       s_capacity = None \<rparr>)
     = Inl (Error ''Invalid serialized data: missing bits'')
   \<and> deserialize (Some \<lparr> s_bits = Some ''AA=='', s_size = Some 0, s_hashCount = Some 7,
       s_count = Some 0, s_capacity = Some 100 \<rparr>)
     = Inl (Error ''Invalid serialized data: size must be a positive integer'')
   \<and> deserialize (Some \<lparr> s_bits = Some ''AA=='', s_size = Some 8, s_hashCount = Some 0,
       s_count = Some 0, s_capacity = Some 100 \<rparr>)
     = Inl (Error ''Invalid serialized data: hashCount must be a positive integer'')
   \<and> deserialize (Some \<lparr> s_bits = Some ''AA=='', s_size = Some 8, s_hashCount = Some 7,
       s_count = Some (- 1), s_capacity = Some 100 \<rparr>)
     = Inl (Error ''Invalid serialized data: count must be a non-negative integer'')
   \<and> deserialize (Some \<lparr> s_bits = Some ''AA=='', s_size = Some 100, s_hashCount = Some 7,
       s_count = Some 0, s_capacity = Some 100 \<rparr>)
     = Inl (Error ''Invalid serialized data: expected 13 bytes, got 1'')"
proof -
  have c13: "\<lceil>(100::real) / 8\<rceil> = 13" by (simp add: ceiling_eq_iff)
  have d13: "decimal 13 = ''13''" "decimal 1 = ''1''" "decimal (Suc 0) = ''1''"
    by (simp_all add: decimal.simps)
  show ?thesis
    using
      deserialize_rejects_in_order [of "\<lparr> s_bits = None, s_size = None, s_hashCount = None,
        s_count = None, s_capacity = None \<rparr>"]
      deserialize_rejects_in_order [of "\<lparr> s_bits = Some ''AA=='', s_size = Some 0,
        s_hashCount = Some 7, s_count = Some 0, s_capacity = Some 100 \<rparr>"]
      deserialize_rejects_in_order [of "\<lparr> s_bits = Some ''AA=='', s_size = Some 8,
        s_hashCount = Some 0, s_count = Some 0, s_capacity = Some 100 \<rparr>"]
      deserialize_rejects_in_order [of "\<lparr> s_bits = Some ''AA=='', s_size = Some 8,
        s_hashCount = Some 7, s_count = Some (- 1), s_capacity = Some 100 \<rparr>"]
      deserialize_rejects_in_order [of "\<lparr> s_bits = Some ''AA=='', s_size = Some 100,
        s_hashCount = Some 7, s_count = Some 0, s_capacity = Some 100 \<rparr>"]
    by (simp add: positive_integer_def non_negative_integer_def atob_AA c13 d13)
qed

text \<open>\<open>deserialize\<close> never reads the field \<open>capacity\<close> of the record.\<close>

lemma deserialize_ignores_capacity:
  "deserialize (Some (d\<lparr> s_capacity := c \<rparr>)) = deserialize (Some d)"
proof -
  have e: "s_bits (d\<lparr> s_capacity := c \<rparr>) = s_bits d"
    "s_size (d\<lparr> s_capacity := c \<rparr>) = s_size d"
    "s_hashCount (d\<lparr> s_capacity := c \<rparr>) = s_hashCount d"
    "s_count (d\<lparr> s_capacity := c \<rparr>) = s_count d"
    by simp_all
  show ?thesis unfolding deserialize_def option.case e ..
qed

text \<open>
  C6. The specification has a record whose \<open>capacity\<close> field is not a positive
  integer rejected with "capacity must be a positive integer". The record below is the
  one of the repository's test "should reject invalid capacity" (\<open>capacity = 0\<close>);
  the code accepts it and returns a filter whose capacity is 1.
\<close>

theorem deserialize_accepts_capacity_zero:
  "deserialize (Some \<lparr> s_bits = Some ''AA=='', s_size = Some 8, s_hashCount = Some 7,
       s_count = Some 0, s_capacity = Some 0 \<rparr>)
     = Inr \<lparr> bits = [0], f_size = 8, f_hashCount = 7, f_capacity = 1, f_count = 0 \<rparr>"
  by (subst deserialize_checked [where b = "''AA==''"])
     (simp_all add: positive_integer_def non_negative_integer_def atob_AA byte_of_char_of_nat)

section \<open>Bits\<close>

lemma smod_nonneg: "0 \<le> a \<Longrightarrow> 0 < b \<Longrightarrow> (a::int) smod b = a mod b"
  by (cases "a = 0") (simp_all add: smod_int_alt_def)

lemma bit_mask_nonzero: "n < 8 \<Longrightarrow> (push_bit n 1 :: byte) \<noteq> 0"
  by simp

lemma index_in_array:
  assumes "0 \<le> index" "index < 8 * int (length bs)"
  shows "0 \<le> index div 8" "nat (index div 8) < length bs" "index smod 8 = index mod 8"
    "nat (index mod 8) < 8"
proof -
  show "0 \<le> index div 8" using assms(1) by simp
  have "index div 8 < int (length bs)" using assms(2) by linarith
  then show "nat (index div 8) < length bs" using assms(1) by simp
  show "index smod 8 = index mod 8" using assms(1) by (simp add: smod_nonneg)
  have "index mod 8 < 8" by simp
  then show "nat (index mod 8) < 8" by linarith
qed

lemma length_setBit: "length (setBit bs index) = length bs"
  by (simp add: setBit_def Let_def)

lemma getBit_setBit_same:
  assumes "0 \<le> index" "index < 8 * int (length bs)"
  shows "getBit (setBit bs index) index"
proof -
  note ia = index_in_array [OF assms]
  have "((bs ! nat (index div 8)) OR push_bit (nat (index mod 8)) 1) AND push_bit (nat (index mod 8)) 1
      = (push_bit (nat (index mod 8)) 1 :: byte)"
    by (simp add: bit_eq_iff bit_and_iff bit_or_iff)
  then show ?thesis
    using ia bit_mask_nonzero [OF ia(4)] by (simp add: getBit_def setBit_def Let_def)
qed

lemma getBit_setBit_mono:
  assumes "getBit bs j"
  shows "getBit (setBit bs index) j"
proof (cases "0 \<le> index div 8 \<and> nat (index div 8) < length bs")
  case False
  then show ?thesis using assms by (auto simp: setBit_def Let_def)
next
  case True
  have keep: "(w AND m) \<noteq> 0 \<Longrightarrow> ((w OR m') AND m) \<noteq> 0" for w m m' :: byte
    by (simp add: bit_eq_iff bit_and_iff bit_or_iff) blast
  show ?thesis
  proof (cases "nat (j div 8) = nat (index div 8)")
    case same: True
    then show ?thesis
      using assms True keep by (auto simp: getBit_def setBit_def Let_def)
  next
    case other: False
    then show ?thesis
      using assms True by (auto simp: getBit_def setBit_def Let_def)
  qed
qed

section \<open>Indices\<close>

lemma bigint_rem_nonneg:
  "0 \<le> a \<Longrightarrow> 0 < b \<Longrightarrow> bigint_rem a b = Inr (a mod b)"
  by (simp add: bigint_rem_def smod_nonneg)

lemma hash128_nonneg:
  assumes "hash128 H x = (h1, h2)"
  shows "0 \<le> h1" "0 \<le> h2"
  using assms by (auto simp: hash128_def Let_def mask64_def)

lemma index_nonneg:
  "0 \<le> h1 \<Longrightarrow> 0 \<le> h2 \<Longrightarrow> 0 \<le> i \<Longrightarrow> 0 \<le> h1 + i * (h2::int)"
  by simp

lemma index_range:
  assumes "0 < sz" "sz \<le> 8 * int (length bs)"
  shows "0 \<le> a mod sz" "a mod sz < 8 * int (length bs)"
proof -
  show "0 \<le> a mod sz" using assms(1) by simp
  have "a mod sz < sz" using assms(1) by simp
  then show "a mod sz < 8 * int (length bs)" using assms(2) by linarith
qed

section \<open>The loops\<close>

lemma js_increment_below: "i < 2 ^ 53 \<Longrightarrow> js_increment i = i + 1"
  by (simp add: js_increment_def)

lemma js_increment_le: "i \<le> 2 ^ 53 \<Longrightarrow> js_increment i \<le> 2 ^ 53"
  by (simp add: js_increment_def)

text \<open>
  With a hash count of at most \<open>2\<^sup>5\<^sup>3\<close> the loop of \<open>add\<close> ends: it sets the bit
  of every counter from \<open>i\<close> on and leaves the bits that were set.
\<close>

lemma add_loop_sets_bits:
  assumes "0 < sz" "0 \<le> h1" "0 \<le> h2" "hashCount \<le> 2 ^ 53"
  shows "0 \<le> i \<Longrightarrow> sz \<le> 8 * int (length bs) \<Longrightarrow>
     \<exists>bs'. add_loop h1 h2 sz hashCount i bs = Some (Inr bs') \<and> length bs' = length bs
           \<and> (\<forall>j. getBit bs j \<longrightarrow> getBit bs' j)
           \<and> (\<forall>k. i \<le> k \<and> k < hashCount \<longrightarrow> getBit bs' ((h1 + k * h2) mod sz))"
proof (induction "nat (hashCount - i)" arbitrary: i bs)
  case 0
  then have ge: "hashCount \<le> i" by simp
  then have "add_loop h1 h2 sz hashCount i bs = Some (Inr bs)"
    by (subst add_loop.simps) simp
  moreover have "\<forall>k. i \<le> k \<and> k < hashCount \<longrightarrow> getBit bs ((h1 + k * h2) mod sz)"
    using ge by auto
  ultimately show ?case by blast
next
  case (Suc n)
  let ?ix = "(h1 + i * h2) mod sz"
  let ?bs1 = "setBit bs ?ix"
  have lt: "i < hashCount" using Suc.hyps(2) by linarith
  then have inc: "js_increment i = i + 1" using assms(4) by (simp add: js_increment_below)
  have n: "n = nat (hashCount - (i + 1))" using Suc.hyps(2) by linarith
  have rem: "bigint_rem (h1 + i * h2) sz = Inr ?ix"
    using assms(1,2,3) Suc.prems(1) by (simp add: bigint_rem_nonneg)
  have len1: "sz \<le> 8 * int (length ?bs1)"
    using Suc.prems(2) by (simp add: length_setBit)
  have nn: "0 \<le> i + 1" using Suc.prems(1) by simp
  from Suc.hyps(1) [OF n nn len1] obtain bs' where
    run: "add_loop h1 h2 sz hashCount (i + 1) ?bs1 = Some (Inr bs')" and
    len: "length bs' = length ?bs1" and
    mono: "\<forall>j. getBit ?bs1 j \<longrightarrow> getBit bs' j" and
    set: "\<forall>k. i + 1 \<le> k \<and> k < hashCount \<longrightarrow> getBit bs' ((h1 + k * h2) mod sz)"
    by blast
  have here: "getBit ?bs1 ?ix"
    using index_range [OF assms(1) Suc.prems(2)] by (rule getBit_setBit_same)
  have "add_loop h1 h2 sz hashCount i bs = Some (Inr bs')"
    by (subst add_loop.simps) (simp add: lt rem inc run)
  moreover have "length bs' = length bs" using len by (simp add: length_setBit)
  moreover have "\<forall>j. getBit bs j \<longrightarrow> getBit bs' j"
    using mono getBit_setBit_mono by blast
  moreover have "getBit bs' ((h1 + k * h2) mod sz)" if "i \<le> k" "k < hashCount" for k
  proof (cases "k = i")
    case True
    then show ?thesis using here mono by simp
  next
    case False
    then show ?thesis using that set by simp
  qed
  ultimately show ?case by blast
qed

text \<open>Under the same bound the loop of \<open>has\<close> ends and says whether all the bits are set.\<close>

lemma has_loop_result:
  assumes "0 < sz" "0 \<le> h1" "0 \<le> h2" "hashCount \<le> 2 ^ 53"
  shows "0 \<le> i \<Longrightarrow> has_loop h1 h2 sz hashCount i bs
     = Some (Inr (\<forall>k. i \<le> k \<and> k < hashCount \<longrightarrow> getBit bs ((h1 + k * h2) mod sz)))"
proof (induction "nat (hashCount - i)" arbitrary: i)
  case 0
  then have ge: "hashCount \<le> i" by simp
  then have "has_loop h1 h2 sz hashCount i bs = Some (Inr True)"
    by (subst has_loop.simps) simp
  moreover have "\<forall>k. i \<le> k \<and> k < hashCount \<longrightarrow> getBit bs ((h1 + k * h2) mod sz)"
    using ge by auto
  ultimately show ?case by simp
next
  case (Suc n)
  let ?ix = "(h1 + i * h2) mod sz"
  have lt: "i < hashCount" using Suc.hyps(2) by linarith
  then have inc: "js_increment i = i + 1" using assms(4) by (simp add: js_increment_below)
  have n: "n = nat (hashCount - (i + 1))" using Suc.hyps(2) by linarith
  have rem: "bigint_rem (h1 + i * h2) sz = Inr ?ix"
    using assms(1,2,3) Suc.prems by (simp add: bigint_rem_nonneg)
  have nn: "0 \<le> i + 1" using Suc.prems by simp
  note IH = Suc.hyps(1) [OF n nn]
  show ?case
  proof (cases "getBit bs ?ix")
    case False
    have "has_loop h1 h2 sz hashCount i bs = Some (Inr False)"
      by (subst has_loop.simps) (simp add: lt rem False)
    moreover have "\<not> (\<forall>k. i \<le> k \<and> k < hashCount \<longrightarrow> getBit bs ((h1 + k * h2) mod sz))"
      using False lt by auto
    ultimately show ?thesis by simp
  next
    case True
    have "has_loop h1 h2 sz hashCount i bs = has_loop h1 h2 sz hashCount (i + 1) bs"
      by (subst has_loop.simps) (simp add: lt rem True inc)
    moreover have "(\<forall>k. i \<le> k \<and> k < hashCount \<longrightarrow> getBit bs ((h1 + k * h2) mod sz))
        = (\<forall>k. i + 1 \<le> k \<and> k < hashCount \<longrightarrow> getBit bs ((h1 + k * h2) mod sz))"
    proof
      assume "\<forall>k. i \<le> k \<and> k < hashCount \<longrightarrow> getBit bs ((h1 + k * h2) mod sz)"
      then show "\<forall>k. i + 1 \<le> k \<and> k < hashCount \<longrightarrow> getBit bs ((h1 + k * h2) mod sz)"
        by simp
    next
      assume r: "\<forall>k. i + 1 \<le> k \<and> k < hashCount \<longrightarrow> getBit bs ((h1 + k * h2) mod sz)"
      show "\<forall>k. i \<le> k \<and> k < hashCount \<longrightarrow> getBit bs ((h1 + k * h2) mod sz)"
      proof (intro allI impI)
        fix k assume k: "i \<le> k \<and> k < hashCount"
        show "getBit bs ((h1 + k * h2) mod sz)"
        proof (cases "k = i")
          case True
          then show ?thesis using \<open>getBit bs ?ix\<close> by simp
        next
          case False
          then show ?thesis using k r by simp
        qed
      qed
    qed
    ultimately show ?thesis using IH by simp
  qed
qed

text \<open>
  With a hash count above \<open>2\<^sup>5\<^sup>3\<close> and a size that is not 0 the loop of \<open>add\<close>
  never ends: the counter stays at most \<open>2\<^sup>5\<^sup>3\<close>, below the hash count.
\<close>

lemma add_loop_diverges:
  assumes "sz \<noteq> 0" "2 ^ 53 < hashCount" "i \<le> 2 ^ 53"
  shows "add_loop h1 h2 sz hashCount i bs = None"
proof (rule ccontr)
  assume "add_loop h1 h2 sz hashCount i bs \<noteq> None"
  then obtain y where y: "add_loop h1 h2 sz hashCount i bs = Some y" by blast
  have "\<not> (sz \<noteq> 0 \<and> 2 ^ 53 < hashCount \<and> i \<le> 2 ^ 53)"
  proof (rule add_loop.raw_induct
      [where P = "\<lambda>_ _ sz hashCount i _ _. \<not> (sz \<noteq> 0 \<and> 2 ^ 53 < hashCount \<and> i \<le> 2 ^ 53)",
        OF _ y])
    fix f :: "int \<Rightarrow> int \<Rightarrow> int \<Rightarrow> int \<Rightarrow> int \<Rightarrow> byte list \<Rightarrow> (error + byte list) option"
      and h1 h2 sz hashCount i :: int and bs :: "byte list" and y :: "error + byte list"
    assume IH: "\<And>h1 h2 sz hashCount i bs y. f h1 h2 sz hashCount i bs = Some y \<Longrightarrow>
        \<not> (sz \<noteq> 0 \<and> 2 ^ 53 < hashCount \<and> i \<le> 2 ^ 53)"
    assume body: "(if i < hashCount then
        (case bigint_rem (h1 + i * h2) sz of
           Inl e \<Rightarrow> Some (Inl e)
         | Inr index \<Rightarrow> f h1 h2 sz hashCount (js_increment i) (setBit bs index))
      else Some (Inr bs)) = Some y"
    show "\<not> (sz \<noteq> 0 \<and> 2 ^ 53 < hashCount \<and> i \<le> 2 ^ 53)"
    proof
      assume a: "sz \<noteq> 0 \<and> 2 ^ 53 < hashCount \<and> i \<le> 2 ^ 53"
      then have lt: "i < hashCount" by linarith
      have rem: "bigint_rem (h1 + i * h2) sz = Inr ((h1 + i * h2) smod sz)"
        using a by (simp add: bigint_rem_def)
      from body have "f h1 h2 sz hashCount (js_increment i)
          (setBit bs ((h1 + i * h2) smod sz)) = Some y"
        by (simp add: lt rem)
      from IH [OF this] a js_increment_le [of i] show False by blast
    qed
  qed
  then show False using assms by simp
qed

text \<open>The loop of \<open>has\<close> never ends either, when every bit it probes is set.\<close>

lemma has_loop_diverges:
  assumes "0 < sz" "0 \<le> h1" "0 \<le> h2" "2 ^ 53 < hashCount" "0 \<le> i" "i \<le> 2 ^ 53"
    and "\<forall>j. 0 \<le> j \<and> j < sz \<longrightarrow> getBit bs j"
  shows "has_loop h1 h2 sz hashCount i bs = None"
proof (rule ccontr)
  assume "has_loop h1 h2 sz hashCount i bs \<noteq> None"
  then obtain y where y: "has_loop h1 h2 sz hashCount i bs = Some y" by blast
  have "\<not> (0 < sz \<and> 0 \<le> h1 \<and> 0 \<le> h2 \<and> 2 ^ 53 < hashCount \<and> 0 \<le> i \<and> i \<le> 2 ^ 53
          \<and> (\<forall>j. 0 \<le> j \<and> j < sz \<longrightarrow> getBit bs j))"
  proof (rule has_loop.raw_induct
      [where P = "\<lambda>h1 h2 sz hashCount i bs _.
         \<not> (0 < sz \<and> 0 \<le> h1 \<and> 0 \<le> h2 \<and> 2 ^ 53 < hashCount \<and> 0 \<le> i \<and> i \<le> 2 ^ 53
            \<and> (\<forall>j. 0 \<le> j \<and> j < sz \<longrightarrow> getBit bs j))",
        OF _ y])
    fix f :: "int \<Rightarrow> int \<Rightarrow> int \<Rightarrow> int \<Rightarrow> int \<Rightarrow> byte list \<Rightarrow> (error + bool) option"
      and h1 h2 sz hashCount i :: int and bs :: "byte list" and y :: "error + bool"
    assume IH: "\<And>h1 h2 sz hashCount i bs y. f h1 h2 sz hashCount i bs = Some y \<Longrightarrow>
        \<not> (0 < sz \<and> 0 \<le> h1 \<and> 0 \<le> h2 \<and> 2 ^ 53 < hashCount \<and> 0 \<le> i \<and> i \<le> 2 ^ 53
           \<and> (\<forall>j. 0 \<le> j \<and> j < sz \<longrightarrow> getBit bs j))"
    assume body: "(if i < hashCount then
        (case bigint_rem (h1 + i * h2) sz of
           Inl e \<Rightarrow> Some (Inl e)
         | Inr index \<Rightarrow>
             if \<not> getBit bs index then Some (Inr False)
             else f h1 h2 sz hashCount (js_increment i) bs)
      else Some (Inr True)) = Some y"
    show "\<not> (0 < sz \<and> 0 \<le> h1 \<and> 0 \<le> h2 \<and> 2 ^ 53 < hashCount \<and> 0 \<le> i \<and> i \<le> 2 ^ 53
           \<and> (\<forall>j. 0 \<le> j \<and> j < sz \<longrightarrow> getBit bs j))"
    proof
      assume a: "0 < sz \<and> 0 \<le> h1 \<and> 0 \<le> h2 \<and> 2 ^ 53 < hashCount \<and> 0 \<le> i \<and> i \<le> 2 ^ 53
           \<and> (\<forall>j. 0 \<le> j \<and> j < sz \<longrightarrow> getBit bs j)"
      then have lt: "i < hashCount" by linarith
      have rem: "bigint_rem (h1 + i * h2) sz = Inr ((h1 + i * h2) mod sz)"
        using a by (simp add: bigint_rem_nonneg)
      have "0 \<le> (h1 + i * h2) mod sz" "(h1 + i * h2) mod sz < sz" using a by simp_all
      then have g: "getBit bs ((h1 + i * h2) mod sz)" using a by blast
      from body have r: "f h1 h2 sz hashCount (js_increment i) bs = Some y"
        by (simp add: lt rem g)
      have "0 \<le> js_increment i" "js_increment i \<le> 2 ^ 53"
        using a by (simp_all add: js_increment_def)
      with IH [OF r] a show False by blast
    qed
  qed
  then show False using assms by blast
qed

section \<open>Well-formed filters\<close>

lemma well_formed_size_le:
  assumes "well_formed f"
  shows "0 < f_size f" "f_size f \<le> 8 * int (length (bits f))"
proof -
  show "0 < f_size f" using assms by (simp add: well_formed_def)
  have "real_of_int (f_size f) / 8 \<le> real_of_int \<lceil>real_of_int (f_size f) / 8\<rceil>"
    by (rule le_of_int_ceiling)
  also have "\<dots> = real (length (bits f))" using assms by (simp add: well_formed_def)
  finally have "real_of_int (f_size f) \<le> 8 * real (length (bits f))" by simp
  then show "f_size f \<le> 8 * int (length (bits f))" by linarith
qed

lemma has_eq:
  assumes "well_formed f" "f_hashCount f \<le> 2 ^ 53"
  shows "has H f x = Some (Inr (\<forall>k. 0 \<le> k \<and> k < f_hashCount f \<longrightarrow>
      getBit (bits f) ((fst (hash128 H x) + k * snd (hash128 H x)) mod f_size f)))"
proof -
  obtain h1 h2 where h: "hash128 H x = (h1, h2)" by (cases "hash128 H x")
  show ?thesis
    unfolding has_def h
    using has_loop_result [OF well_formed_size_le(1) [OF assms(1)] hash128_nonneg [OF h]
        assms(2), of 0 "bits f"]
    by simp
qed

lemma add_result:
  assumes "well_formed f" "f_hashCount f \<le> 2 ^ 53"
  shows "\<exists>bs'. add H f x = Some (Inr (f\<lparr> bits := bs', f_count := f_count f + 1 \<rparr>))
     \<and> length bs' = length (bits f)
     \<and> (\<forall>j. getBit (bits f) j \<longrightarrow> getBit bs' j)
     \<and> (\<forall>k. 0 \<le> k \<and> k < f_hashCount f \<longrightarrow>
           getBit bs' ((fst (hash128 H x) + k * snd (hash128 H x)) mod f_size f))"
proof -
  obtain h1 h2 where h: "hash128 H x = (h1, h2)" by (cases "hash128 H x")
  from add_loop_sets_bits [OF well_formed_size_le(1) [OF assms(1)] hash128_nonneg [OF h]
      assms(2) _ well_formed_size_le(2) [OF assms(1)], of 0]
  obtain bs' where
    run: "add_loop h1 h2 (f_size f) (f_hashCount f) 0 (bits f) = Some (Inr bs')" and
    rest: "length bs' = length (bits f)" "\<forall>j. getBit (bits f) j \<longrightarrow> getBit bs' j"
      "\<forall>k. 0 \<le> k \<and> k < f_hashCount f \<longrightarrow> getBit bs' ((h1 + k * h2) mod f_size f)"
    by auto
  have "add H f x = Some (Inr (f\<lparr> bits := bs', f_count := f_count f + 1 \<rparr>))"
    by (simp add: add_def h run)
  then show ?thesis using rest h by auto
qed

text \<open>On a well-formed filter \<open>add\<close> returns exactly when the hash count is at most \<open>2\<^sup>5\<^sup>3\<close>.\<close>

lemma add_diverges:
  assumes "well_formed f" "2 ^ 53 < f_hashCount f"
  shows "add H f x = None"
proof -
  obtain h1 h2 where h: "hash128 H x = (h1, h2)" by (cases "hash128 H x")
  have "f_size f \<noteq> 0" using well_formed_size_le(1) [OF assms(1)] by simp
  then have "add_loop h1 h2 (f_size f) (f_hashCount f) 0 (bits f) = None"
    using assms(2) by (intro add_loop_diverges) simp_all
  then show ?thesis by (simp add: add_def h)
qed

lemma add_returns_bound:
  assumes "well_formed f" "add H f x = Some y"
  shows "f_hashCount f \<le> 2 ^ 53"
proof (rule ccontr)
  assume "\<not> f_hashCount f \<le> 2 ^ 53"
  then have "add H f x = None" using assms(1) by (intro add_diverges) simp_all
  then show False using assms(2) by simp
qed

lemma add_fields:
  assumes "add H f x = Some (Inr f')"
  shows "f_size f' = f_size f" "f_hashCount f' = f_hashCount f" "f_capacity f' = f_capacity f"
    "f_count f' = f_count f + 1"
  using assms by (auto simp: add_def split: prod.splits option.splits sum.splits)

lemma well_formed_add:
  assumes "well_formed f" "add H f x = Some (Inr f')"
  shows "well_formed f'"
  using add_result [OF assms(1) add_returns_bound [OF assms], of H x] assms
  by (auto simp: well_formed_def)

lemma well_formed_clear: "well_formed f \<Longrightarrow> well_formed (clear f)"
  by (simp add: well_formed_def clear_def)

lemma calculated_size_positive:
  assumes "0 < capacity" "0 < errorRate" "errorRate < 1"
  shows "0 < fst (calculateOptimalParams capacity errorRate)"
proof -
  have "ln errorRate < 0" using assms(2,3) by simp
  then have "0 < - capacity * ln errorRate" using assms(1) by (simp add: mult_pos_neg)
  moreover have "0 < ln 2 * ln (2::real)" by simp
  ultimately have "0 < (- capacity * ln errorRate) / (ln 2 * ln 2)" by (rule divide_pos_pos)
  then show ?thesis by (simp add: calculateOptimalParams_def Let_def)
qed

lemma new_BloomSift_Inr:
  assumes "new_BloomSift capacity errorRate = Inr f"
  shows "0 < capacity" "0 < errorRate" "errorRate < 1"
    "f = \<lparr> bits = replicate (nat \<lceil>real_of_int (fst (calculateOptimalParams capacity errorRate)) / 8\<rceil>) 0,
          f_size = fst (calculateOptimalParams capacity errorRate),
          f_hashCount = snd (calculateOptimalParams capacity errorRate),
          f_capacity = capacity, f_count = 0 \<rparr>"
  using assms by (auto simp: new_BloomSift_def split: if_splits prod.splits)

lemma well_formed_new:
  assumes "new_BloomSift capacity errorRate = Inr f"
  shows "well_formed f"
proof -
  note n = new_BloomSift_Inr [OF assms]
  have pos: "0 < fst (calculateOptimalParams capacity errorRate)"
    using n(1,2,3) by (rule calculated_size_positive)
  then have "0 \<le> \<lceil>real_of_int (fst (calculateOptimalParams capacity errorRate)) / 8\<rceil>"
    by simp
  then show ?thesis using pos by (simp add: n(4) well_formed_def)
qed

lemma well_formed_deserialize:
  assumes "deserialize data = Inr f"
  shows "well_formed f" "0 < f_hashCount f" "0 \<le> f_count f"
proof -
  from assms obtain d where d: "data = Some d"
    by (cases data) (auto simp: deserialize_def)
  from assms have chk: "s_bits d \<noteq> None" "positive_integer (s_size d)"
    "positive_integer (s_hashCount d)" "non_negative_integer (s_count d)"
    using deserialize_Inr_checks unfolding d by blast+
  then obtain b where b: "s_bits d = Some b" by blast
  from chk(2) obtain n where n: "s_size d = Some n" "0 < n" "n \<in> \<int>"
    by (auto simp: positive_integer_def split: option.splits)
  from chk(3) obtain k where k: "s_hashCount d = Some k" "0 < k" "k \<in> \<int>"
    by (auto simp: positive_integer_def split: option.splits)
  from chk(4) obtain c where c: "s_count d = Some c" "0 \<le> c" "c \<in> \<int>"
    by (auto simp: non_negative_integer_def split: option.splits)
  have fl: "real_of_int \<lfloor>n\<rfloor> = n" "real_of_int \<lfloor>k\<rfloor> = k"
    using n(3) k(3) by (simp_all add: floor_eq_iff_Ints)
  have pn: "0 < \<lfloor>n\<rfloor>" "0 < \<lfloor>k\<rfloor>" using fl n(2) k(2) by linarith+
  from assms obtain str where
    f: "f = \<lparr> bits = map of_char str, f_size = \<lfloor>n\<rfloor>, f_hashCount = \<lfloor>k\<rfloor>,
            f_capacity = (if c \<noteq> 0 then c else 1), f_count = \<lfloor>c\<rfloor> \<rparr>"
    and len: "int (length str) = \<lceil>n / 8\<rceil>"
    unfolding d deserialize_checked [OF b chk(2,3,4)]
    by (auto simp: n k c split: option.splits if_splits)
  have "\<lceil>real_of_int \<lfloor>n\<rfloor> / 8\<rceil> = \<lceil>n / 8\<rceil>" by (simp only: fl)
  then show "well_formed f" using pn(1) len by (simp add: f well_formed_def)
  show "0 < f_hashCount f" using pn by (simp add: f)
  show "0 \<le> f_count f" using c(2) by (simp add: f)
qed

lemma constructed_well_formed: "constructed H f \<Longrightarrow> well_formed f"
  by (induction rule: constructed.induct)
    (auto intro: well_formed_new well_formed_deserialize well_formed_add well_formed_clear)

lemma has_after_add:
  assumes "well_formed f" "add H f x = Some (Inr f')"
  shows "has H f' x = Some (Inr True)"
proof -
  have b: "f_hashCount f \<le> 2 ^ 53" using assms by (rule add_returns_bound)
  from add_result [OF assms(1) b, of H x] assms(2) obtain bs' where
    f': "f' = f\<lparr> bits := bs', f_count := f_count f + 1 \<rparr>" and
    set: "\<forall>k. 0 \<le> k \<and> k < f_hashCount f \<longrightarrow>
           getBit bs' ((fst (hash128 H x) + k * snd (hash128 H x)) mod f_size f)"
    by auto
  have wf': "well_formed f'" using assms by (rule well_formed_add)
  have b': "f_hashCount f' \<le> 2 ^ 53" using b by (simp add: f')
  have "has H f' x = Some (Inr (\<forall>k. 0 \<le> k \<and> k < f_hashCount f' \<longrightarrow>
      getBit (bits f') ((fst (hash128 H x) + k * snd (hash128 H x)) mod f_size f')))"
    using wf' b' by (rule has_eq)
  then show ?thesis using set by (simp add: f')
qed

lemma add_all_fields:
  "add_all H f ys = Some (Inr g) \<Longrightarrow>
     f_size g = f_size f \<and> f_hashCount g = f_hashCount f \<and> f_capacity g = f_capacity f
     \<and> f_count g = f_count f + int (length ys)"
proof (induction ys arbitrary: f)
  case Nil
  then show ?case by simp
next
  case (Cons y ys)
  from Cons.prems obtain f1 where a: "add H f y = Some (Inr f1)"
    and r: "add_all H f1 ys = Some (Inr g)"
    by (auto split: option.splits sum.splits)
  from Cons.IH [OF r] add_fields [OF a] show ?case by simp
qed

lemma add_all_result:
  assumes "well_formed f" "f_hashCount f \<le> 2 ^ 53"
  shows "\<exists>g. add_all H f ys = Some (Inr g) \<and> well_formed g
     \<and> (\<forall>j. getBit (bits f) j \<longrightarrow> getBit (bits g) j)"
  using assms
proof (induction ys arbitrary: f)
  case Nil
  then show ?case by simp
next
  case (Cons y ys)
  from add_result [OF Cons.prems, of H y] obtain bs' where
    a: "add H f y = Some (Inr (f\<lparr> bits := bs', f_count := f_count f + 1 \<rparr>))" and
    mono: "\<forall>j. getBit (bits f) j \<longrightarrow> getBit bs' j"
    by blast
  let ?f1 = "f\<lparr> bits := bs', f_count := f_count f + 1 \<rparr>"
  have wf1: "well_formed ?f1" using Cons.prems(1) a by (rule well_formed_add)
  have b1: "f_hashCount ?f1 \<le> 2 ^ 53" using Cons.prems(2) by simp
  from Cons.IH [OF wf1 b1] obtain g where
    g: "add_all H ?f1 ys = Some (Inr g)" "well_formed g"
      "\<forall>j. getBit (bits ?f1) j \<longrightarrow> getBit (bits g) j"
    by blast
  have "add_all H f (y # ys) = Some (Inr g)" using a g(1) by simp
  then show ?case using g mono by auto
qed

lemma has_stays_true:
  assumes "well_formed f" "well_formed g" "f_size g = f_size f" "f_hashCount g = f_hashCount f"
    and "f_hashCount f \<le> 2 ^ 53"
    and "\<forall>j. getBit (bits f) j \<longrightarrow> getBit (bits g) j"
    and "has H f x = Some (Inr True)"
  shows "has H g x = Some (Inr True)"
proof -
  have bg: "f_hashCount g \<le> 2 ^ 53" using assms(4,5) by simp
  show ?thesis
    using assms(3,4,6,7) by (simp add: has_eq [OF assms(1,5)] has_eq [OF assms(2) bg])
qed

section \<open>No false negatives, and totality\<close>

text \<open>
  C1. No false negatives. For every validly constructed filter \<open>f\<close> and every item
  \<open>x\<close> (a string or a byte sequence, the empty one included): once \<open>add\<close> has
  returned, \<open>has\<close> answers true for \<open>x\<close>, and it still answers true after any further
  run of \<open>add\<close> calls, each of which returns: \<open>add\<close> sets bits and never clears one.
  \<open>add\<close> does return whenever the hash count is at most \<open>2\<^sup>5\<^sup>3\<close>.
\<close>

theorem no_false_negatives:
  assumes "constructed H f"
  shows "(f_hashCount f \<le> 2 ^ 53 \<longrightarrow> (\<exists>f'. add H f x = Some (Inr f')))
     \<and> (\<forall>f'. add H f x = Some (Inr f') \<longrightarrow>
           has H f' x = Some (Inr True)
           \<and> (\<forall>ys. \<exists>g. add_all H f' ys = Some (Inr g) \<and> has H g x = Some (Inr True)))"
proof -
  have wf: "well_formed f" using assms by (rule constructed_well_formed)
  have ret: "\<exists>f'. add H f x = Some (Inr f')" if "f_hashCount f \<le> 2 ^ 53"
    using add_result [OF wf that, of H x] by blast
  have after: "has H f' x = Some (Inr True)
        \<and> (\<forall>ys. \<exists>g. add_all H f' ys = Some (Inr g) \<and> has H g x = Some (Inr True))"
    if a: "add H f x = Some (Inr f')" for f'
  proof -
    have wf': "well_formed f'" using wf a by (rule well_formed_add)
    have b': "f_hashCount f' \<le> 2 ^ 53"
      using add_returns_bound [OF wf a] add_fields(2) [OF a] by simp
    have h: "has H f' x = Some (Inr True)" using wf a by (rule has_after_add)
    have "\<exists>g. add_all H f' ys = Some (Inr g) \<and> has H g x = Some (Inr True)" for ys
    proof -
      from add_all_result [OF wf' b', of H ys] obtain g where
        g: "add_all H f' ys = Some (Inr g)" "well_formed g"
          "\<forall>j. getBit (bits f') j \<longrightarrow> getBit (bits g) j"
        by blast
      note fl = add_all_fields [OF g(1)]
      have "has H g x = Some (Inr True)"
        using wf' g(2) _ _ b' g(3) h by (rule has_stays_true) (simp_all add: fl)
      then show ?thesis using g(1) by blast
    qed
    then show ?thesis using h by blast
  qed
  show ?thesis using ret after by blast
qed

text \<open>
  A concrete run: a hash value whose upper half is 3 and lower half is 5, on the filter
  restored from an eight-bit record with two hash functions. The indices are
  \<open>3 mod 8 = 3\<close> and \<open>(3 + 5) mod 8 = 0\<close>, so the byte becomes \<open>2\<^sup>3 + 2\<^sup>0 = 9\<close>.
\<close>

lemma hash128_example: "hash128 (\<lambda>_. 0x30000000000000005) x = (3, 5)"
  by (simp add: hash128_def mask64_def Let_def drop_bit_eq_div)

lemma deserialize_example:
  "deserialize (Some \<lparr> s_bits = Some ''AA=='', s_size = Some 8, s_hashCount = Some 2,
        s_count = Some 0, s_capacity = None \<rparr>)
     = Inr \<lparr> bits = [0], f_size = 8, f_hashCount = 2, f_capacity = 1, f_count = 0 \<rparr>"
  by (subst deserialize_checked [where b = "''AA==''"])
     (simp_all add: positive_integer_def non_negative_integer_def atob_AA byte_of_char_of_nat)

lemma constructed_example:
  "constructed H \<lparr> bits = [0], f_size = 8, f_hashCount = 2, f_capacity = 1, f_count = 0 \<rparr>"
  using deserialize_example by (rule by_deserialize)

lemma add_loop_example: "add_loop 3 5 8 2 0 [0] = Some (Inr [9])"
  by (simp add: add_loop.simps js_increment_def bigint_rem_def smod_int_alt_def setBit_def
      Let_def)

lemma add_example:
  "add (\<lambda>_. 0x30000000000000005)
     \<lparr> bits = [0], f_size = 8, f_hashCount = 2, f_capacity = 1, f_count = 0 \<rparr> x
   = Some (Inr \<lparr> bits = [9], f_size = 8, f_hashCount = 2, f_capacity = 1, f_count = 1 \<rparr>)"
  by (simp add: add_def hash128_example add_loop_example)

theorem no_false_negatives_witness:
  "constructed (\<lambda>_. 0x30000000000000005)
     \<lparr> bits = [0], f_size = 8, f_hashCount = 2, f_capacity = 1, f_count = 0 \<rparr>
   \<and> add (\<lambda>_. 0x30000000000000005)
       \<lparr> bits = [0], f_size = 8, f_hashCount = 2, f_capacity = 1, f_count = 0 \<rparr> (Text ''hello'')
     = Some (Inr \<lparr> bits = [9], f_size = 8, f_hashCount = 2, f_capacity = 1, f_count = 1 \<rparr>)
   \<and> has (\<lambda>_. 0x30000000000000005)
       \<lparr> bits = [9], f_size = 8, f_hashCount = 2, f_capacity = 1, f_count = 1 \<rparr> (Text ''hello'')
     = Some (Inr True)"
  using no_false_negatives [OF constructed_example, of "\<lambda>_. 0x30000000000000005" "Text ''hello''"]
    constructed_example [of "\<lambda>_. 0x30000000000000005"]
  by (simp add: add_example)

text \<open>A record with all eight bits set and a hash count of \<open>2\<^sup>5\<^sup>3 + 2\<close>.\<close>

lemma atob_slash_w: "atob ''/w=='' = Some [char_of (255::nat)]"
  by (simp add: atob_def strip_padding_def ascii_whitespace_def base64_alphabet_def
      b64_index_def)

lemma deserialize_huge_hashCount:
  "deserialize (Some \<lparr> s_bits = Some ''/w=='', s_size = Some 8,
        s_hashCount = Some 9007199254740994, s_count = Some 0, s_capacity = None \<rparr>)
     = Inr \<lparr> bits = [255], f_size = 8, f_hashCount = 9007199254740994, f_capacity = 1,
           f_count = 0 \<rparr>"
  by (subst deserialize_checked [where b = "''/w==''"])
     (simp_all add: positive_integer_def non_negative_integer_def atob_slash_w
        byte_of_char_of_nat)

lemma getBit_all_set: "0 \<le> j \<Longrightarrow> j < 8 \<Longrightarrow> getBit [255] j"
proof -
  assume "0 \<le> j" "j < 8"
  then have "j = 0 \<or> j = 1 \<or> j = 2 \<or> j = 3 \<or> j = 4 \<or> j = 5 \<or> j = 6 \<or> j = 7" by linarith
  then show ?thesis
    by (elim disjE) (simp_all add: getBit_def smod_int_alt_def)
qed

lemma has_diverges:
  assumes "well_formed f" "2 ^ 53 < f_hashCount f"
    and "\<forall>j. 0 \<le> j \<and> j < f_size f \<longrightarrow> getBit (bits f) j"
  shows "has H f x = None"
proof -
  obtain h1 h2 where h: "hash128 H x = (h1, h2)" by (cases "hash128 H x")
  have "has_loop h1 h2 (f_size f) (f_hashCount f) 0 (bits f) = None"
    using well_formed_size_le(1) [OF assms(1)] hash128_nonneg [OF h] assms(2) _ _ assms(3)
    by (rule has_loop_diverges) simp_all
  then show ?thesis by (simp add: has_def h)
qed

text \<open>
  C8, as the specification states it: \<open>add\<close>, \<open>has\<close> and \<open>clear\<close> complete on every
  validly constructed filter. \<open>deserialize\<close> accepts a record whose hash count is
  \<open>2\<^sup>5\<^sup>3 + 2\<close>; on the restored filter \<open>add\<close> does not return, and as all eight
  bits of the record are set, neither does \<open>has\<close>.
\<close>

theorem add_has_do_not_return:
  "deserialize (Some \<lparr> s_bits = Some ''/w=='', s_size = Some 8,
        s_hashCount = Some 9007199254740994, s_count = Some 0, s_capacity = None \<rparr>)
     = Inr \<lparr> bits = [255], f_size = 8, f_hashCount = 9007199254740994, f_capacity = 1,
           f_count = 0 \<rparr>
   \<and> constructed (\<lambda>_. 0x30000000000000005)
       \<lparr> bits = [255], f_size = 8, f_hashCount = 9007199254740994, f_capacity = 1,
         f_count = 0 \<rparr>
   \<and> add (\<lambda>_. 0x30000000000000005)
       \<lparr> bits = [255], f_size = 8, f_hashCount = 9007199254740994, f_capacity = 1,
         f_count = 0 \<rparr> (Text ''a'') = None
   \<and> has (\<lambda>_. 0x30000000000000005)
       \<lparr> bits = [255], f_size = 8, f_hashCount = 9007199254740994, f_capacity = 1,
         f_count = 0 \<rparr> (Text ''a'') = None"
proof -
  let ?f = "\<lparr> bits = [255], f_size = 8, f_hashCount = 9007199254740994, f_capacity = 1,
         f_count = 0 \<rparr>"
  have c: "constructed H ?f" for H
    using deserialize_huge_hashCount by (rule by_deserialize)
  have wf: "well_formed ?f" using c by (rule constructed_well_formed)
  have a: "add H ?f x = None" for H x
    using wf by (rule add_diverges) simp
  have h: "has H ?f x = None" for H x
    using wf by (rule has_diverges) (simp_all add: getBit_all_set)
  show ?thesis using deserialize_huge_hashCount c a h by blast
qed

text \<open>
  C8, amended. On a validly constructed filter whose hash count is at most \<open>2\<^sup>5\<^sup>3\<close>,
  \<open>add\<close> and \<open>has\<close> return for every item without an exception; \<open>clear\<close> always
  does. Whatever the hash count, every index \<open>(h1 + i * h2) mod size\<close> for
  \<open>0 \<le> i < hashCount\<close>, computed on unbounded integers, is at least 0 and below
  \<open>size\<close>, and \<open>size\<close> is at most 8 times the number of bytes, so every bit access
  falls inside the array.
\<close>

theorem add_has_clear_total:
  assumes "constructed H f"
  shows "(f_hashCount f \<le> 2 ^ 53 \<longrightarrow>
           (\<exists>f'. add H f x = Some (Inr f')) \<and> (\<exists>b. has H f x = Some (Inr b)))
     \<and> constructed H (clear f) \<and> length (bits (clear f)) = length (bits f)
     \<and> (\<forall>i. 0 \<le> i \<and> i < f_hashCount f \<longrightarrow> (\<exists>index.
           bigint_rem (fst (hash128 H x) + i * snd (hash128 H x)) (f_size f) = Inr index
           \<and> 0 \<le> index \<and> index < f_size f \<and> nat (index div 8) < length (bits f)))
     \<and> f_size f \<le> 8 * int (length (bits f))"
proof -
  have wf: "well_formed f" using assms by (rule constructed_well_formed)
  note sz = well_formed_size_le [OF wf]
  obtain h1 h2 where h: "hash128 H x = (h1, h2)" by (cases "hash128 H x")
  note nn = hash128_nonneg [OF h]
  have idx: "\<exists>index. bigint_rem (h1 + i * h2) (f_size f) = Inr index
           \<and> 0 \<le> index \<and> index < f_size f \<and> nat (index div 8) < length (bits f)"
    if "0 \<le> i" for i
  proof -
    let ?ix = "(h1 + i * h2) mod f_size f"
    have "bigint_rem (h1 + i * h2) (f_size f) = Inr ?ix"
      using nn sz(1) that by (simp add: bigint_rem_nonneg)
    moreover have "0 \<le> ?ix" "?ix < f_size f" using sz(1) by simp_all
    moreover have "nat (?ix div 8) < length (bits f)"
      using index_in_array(2) [OF index_range [OF sz]] .
    ultimately show ?thesis by blast
  qed
  have "(\<exists>f'. add H f x = Some (Inr f')) \<and> (\<exists>b. has H f x = Some (Inr b))"
    if b: "f_hashCount f \<le> 2 ^ 53"
    using add_result [OF wf b, of H x] has_eq [OF wf b, of H x] by blast
  moreover have "constructed H (clear f)" using assms by (rule by_clear)
  moreover have "length (bits (clear f)) = length (bits f)" by (simp add: clear_def)
  ultimately show ?thesis using idx sz(2) by (simp add: h)
qed

theorem add_has_clear_total_witness:
  "constructed (\<lambda>_. 0x30000000000000005)
     \<lparr> bits = [0], f_size = 8, f_hashCount = 2, f_capacity = 1, f_count = 0 \<rparr>
   \<and> (\<exists>f'. add (\<lambda>_. 0x30000000000000005)
       \<lparr> bits = [0], f_size = 8, f_hashCount = 2, f_capacity = 1, f_count = 0 \<rparr> (Bytes [])
         = Some (Inr f'))
   \<and> (\<exists>b. has (\<lambda>_. 0x30000000000000005)
       \<lparr> bits = [0], f_size = 8, f_hashCount = 2, f_capacity = 1, f_count = 0 \<rparr> (Bytes [])
         = Some (Inr b))
   \<and> constructed (\<lambda>_. 0x30000000000000005)
       (clear \<lparr> bits = [0], f_size = 8, f_hashCount = 2, f_capacity = 1, f_count = 0 \<rparr>)
   \<and> bigint_rem (3 + 1 * 5) 8 = Inr 0"
  using add_has_clear_total [OF constructed_example, of "\<lambda>_. 0x30000000000000005" "Bytes []"]
    constructed_example [of "\<lambda>_. 0x30000000000000005"]
  by (simp add: bigint_rem_def smod_int_alt_def)

section \<open>Parameter calculation and the constructor\<close>

text \<open>
  C7. \<open>calculateOptimalParams(1000, 0.01)\<close> is \<open>(9586, 7)\<close> and
  \<open>calculateOptimalParams(100, 0.001)\<close> is \<open>(1438, 10)\<close>, the size being
  \<open>\<lceil>- capacity * ln errorRate / (ln 2)\<^sup>2\<rceil>\<close> and the hash count
  \<open>round (size / capacity * ln 2)\<close>.
\<close>

theorem reference_values:
  "calculateOptimalParams 1000 (1 / 100) = (9586, 7)
   \<and> calculateOptimalParams 100 (1 / 1000) = (1438, 10)
   \<and> (\<forall>capacity errorRate. calculateOptimalParams capacity errorRate
         = (\<lceil>(- capacity * ln errorRate) / (ln 2)\<^sup>2\<rceil>,
            round ((real_of_int \<lceil>(- capacity * ln errorRate) / (ln 2)\<^sup>2\<rceil> / capacity)
                   * ln 2)))"
proof -
  have "calculateOptimalParams capacity errorRate
         = (\<lceil>(- capacity * ln errorRate) / (ln 2)\<^sup>2\<rceil>,
            round ((real_of_int \<lceil>(- capacity * ln errorRate) / (ln 2)\<^sup>2\<rceil> / capacity)
                   * ln 2))" for capacity errorRate
    unfolding calculateOptimalParams_def Let_def power2_eq_square ..
  then show ?thesis using params_1000_001 params_100_0001 by blast
qed

text \<open>
  With a hash count of 0 the loop of \<open>has\<close> has no iteration: the filter answers
  true for every item, whatever its bits.
\<close>

lemma has_true_when_hashCount_zero:
  "f_hashCount f = 0 \<Longrightarrow> has H f x = Some (Inr True)"
  by (simp add: has_def has_loop.simps split: prod.split)

text \<open>
  C4. The specification gives the hash count a floor of 1: it is never 0. The code rounds
  and applies no floor: for a capacity of 100 and an error rate of 0.9 the size is 22
  and the hash count is \<open>round (0.22 * ln 2) = round 0.152\<dots> = 0\<close>.
\<close>

theorem hashCount_rounds_to_zero:
  "calculateOptimalParams 100 (9 / 10) = (22, 0)"
  by (rule params_100_09)

text \<open>
  C3, as the specification states it: \<open>calculateOptimalParams\<close> raises when the
  capacity is not positive or the error rate is outside (0, 1). The function has no
  check at all: for a capacity of \<open>-1\<close> and an error rate of \<open>1/2\<close> it returns
  the pair \<open>(-1, 1)\<close>.
\<close>

theorem calculateOptimalParams_does_not_validate:
  "calculateOptimalParams (- 1) (1 / 2) = (- 1, 1)"
  by (rule params_minus1_half)

text \<open>
  C3, amended: the checks are the constructor's. It fails with "capacity must be
  positive" when the capacity is at most 0, and with "errorRate must be between 0 and 1"
  when the capacity is positive and the error rate is outside the open interval (0, 1).
\<close>

theorem constructor_rejects_invalid:
  "(capacity \<le> 0 \<longrightarrow>
      new_BloomSift capacity errorRate = Inl (Error ''capacity must be positive''))
   \<and> (0 < capacity \<and> (errorRate \<le> 0 \<or> 1 \<le> errorRate) \<longrightarrow>
      new_BloomSift capacity errorRate = Inl (Error ''errorRate must be between 0 and 1''))"
  by (simp add: new_BloomSift_def)

theorem constructor_rejects_invalid_witness:
  "new_BloomSift 0 (1 / 100) = Inl (Error ''capacity must be positive'')
   \<and> new_BloomSift (- 1) (1 / 100) = Inl (Error ''capacity must be positive'')
   \<and> new_BloomSift 1000 0 = Inl (Error ''errorRate must be between 0 and 1'')
   \<and> new_BloomSift 1000 (3 / 2) = Inl (Error ''errorRate must be between 0 and 1'')"
  using constructor_rejects_invalid [of 0 "1 / 100"] constructor_rejects_invalid [of "- 1" "1 / 100"]
    constructor_rejects_invalid [of 1000 0] constructor_rejects_invalid [of 1000 "3 / 2"]
  by simp

lemma new_BloomSift_valid:
  assumes "0 < capacity" "0 < errorRate" "errorRate < 1"
  shows "new_BloomSift capacity errorRate =
     Inr \<lparr> bits = replicate
             (nat \<lceil>real_of_int (fst (calculateOptimalParams capacity errorRate)) / 8\<rceil>) 0,
           f_size = fst (calculateOptimalParams capacity errorRate),
           f_hashCount = snd (calculateOptimalParams capacity errorRate),
           f_capacity = capacity, f_count = 0 \<rparr>"
  using assms by (simp add: new_BloomSift_def split: prod.split)





section \<open>Round trip through serialize and deserialize\<close>

lemma bytes_of_binary_string:
  "map (\<lambda>c. (of_char c :: byte)) (map (\<lambda>byte. char_of (unat byte)) bs) = bs"
  by (induction bs) (simp_all add: byte_of_char_of_nat)

lemma positive_integer_of_int: "positive_integer (Some (real_of_int k)) = (0 < k)"
  by (simp add: positive_integer_def)

lemma non_negative_integer_of_int: "non_negative_integer (Some (real_of_int k)) = (0 \<le> k)"
  by (simp add: non_negative_integer_def)

text \<open>
  A well-formed filter with a positive hash count and a count that is not negative is
  restored with the same bits, size, hash count and count; only the capacity is replaced.
\<close>

lemma deserialize_serialize:
  assumes "well_formed f" "0 < f_hashCount f" "0 \<le> f_count f"
  shows "deserialize (Some (serialize f)) =
     Inr (f\<lparr> f_capacity := (if f_count f \<noteq> 0 then real_of_int (f_count f) else 1) \<rparr>)"
proof -
  let ?str = "map (\<lambda>byte. char_of (unat byte)) (bits f)"
  have sel: "s_bits (serialize f) = Some (btoa ?str)"
    "s_size (serialize f) = Some (real_of_int (f_size f))"
    "s_hashCount (serialize f) = Some (real_of_int (f_hashCount f))"
    "s_count (serialize f) = Some (real_of_int (f_count f))"
    by (simp_all add: serialize_def Let_def)
  have chk: "positive_integer (s_size (serialize f))"
    "positive_integer (s_hashCount (serialize f))"
    "non_negative_integer (s_count (serialize f))"
    using assms unfolding sel positive_integer_of_int non_negative_integer_of_int
    by (simp_all add: well_formed_def)
  have len: "int (length ?str) = \<lceil>real_of_int (f_size f) / 8\<rceil>"
    using assms(1) by (simp add: well_formed_def)
  have "deserialize (Some (serialize f)) =
     Inr \<lparr> bits = map of_char ?str, f_size = \<lfloor>real_of_int (f_size f)\<rfloor>,
           f_hashCount = \<lfloor>real_of_int (f_hashCount f)\<rfloor>,
           f_capacity = (if real_of_int (f_count f) \<noteq> 0 then real_of_int (f_count f) else 1),
           f_count = \<lfloor>real_of_int (f_count f)\<rfloor> \<rparr>"
    unfolding deserialize_checked [OF sel(1) chk] atob_btoa sel option.sel
    using len by simp
  also have "\<dots> = Inr (f\<lparr> f_capacity := (if f_count f \<noteq> 0 then real_of_int (f_count f) else 1) \<rparr>)"
    by (cases f) (simp add: bytes_of_binary_string del: map_map)
  finally show ?thesis .
qed

lemma constructed_count_nonneg: "constructed H f \<Longrightarrow> 0 \<le> f_count f"
proof (induction rule: constructed.induct)
  case (by_new capacity errorRate f)
  from new_BloomSift_Inr(4) [OF by_new] have "f_count f = 0"
    by (cases f) simp
  then show ?case by simp
next
  case (by_deserialize data f)
  then show ?case by (rule well_formed_deserialize(3))
next
  case (by_add f x f')
  have "f_count f' = f_count f + 1"
    using by_add.hyps(2) by (rule add_fields(4))
  then show ?case using by_add.IH by linarith
next
  case (by_clear f)
  show ?case by (simp add: clear_def)
qed

text \<open>
  For every validly constructed filter whose hash count is positive the round trip
  succeeds and keeps size, hash count, count and every answer of \<open>has\<close>.
\<close>

lemma roundtrip_positive_hashCount:
  assumes "constructed H f" "0 < f_hashCount f"
  shows "\<exists>g. deserialize (Some (serialize f)) = Inr g
     \<and> get_size g = get_size f \<and> get_hashCount g = get_hashCount f
     \<and> get_count g = get_count f \<and> (\<forall>x. has H g x = has H f x)"
proof -
  let ?g = "f\<lparr> f_capacity := (if f_count f \<noteq> 0 then real_of_int (f_count f) else 1) \<rparr>"
  have "deserialize (Some (serialize f)) = Inr ?g"
    using constructed_well_formed [OF assms(1)] assms(2) constructed_count_nonneg [OF assms(1)]
    by (rule deserialize_serialize)
  moreover have "\<forall>x. has H ?g x = has H f x" by (simp add: has_def)
  ultimately show ?thesis by (simp add: get_size_def get_hashCount_def get_count_def)
qed

text \<open>
  C2. The specification has \<open>deserialize (serialize f)\<close> succeed for every filter
  and keep size, hash count, count and the answers of \<open>has\<close>. The filter built for
  a capacity of 100 and an error rate of 0.9 has a hash count of 0, and its own
  serialized record is rejected by \<open>deserialize\<close>.
\<close>

theorem roundtrip_fails_hashCount_zero:
  "new_BloomSift 100 (9 / 10)
     = Inr \<lparr> bits = [0, 0, 0], f_size = 22, f_hashCount = 0, f_capacity = 100, f_count = 0 \<rparr>
   \<and> serialize \<lparr> bits = [0, 0, 0], f_size = 22, f_hashCount = 0, f_capacity = 100,
        f_count = 0 \<rparr>
     = \<lparr> s_bits = Some ''AAAA'', s_size = Some 22, s_hashCount = Some 0, s_count = Some 0,
         s_capacity = None \<rparr>
   \<and> deserialize (Some \<lparr> s_bits = Some ''AAAA'', s_size = Some 22, s_hashCount = Some 0,
        s_count = Some 0, s_capacity = None \<rparr>)
     = Inl (Error ''Invalid serialized data: hashCount must be a positive integer'')"
proof -
  have c: "\<lceil>(22::real) / 8\<rceil> = 3" by (simp add: ceiling_eq_iff)
  have n: "new_BloomSift 100 (9 / 10)
     = Inr \<lparr> bits = [0, 0, 0], f_size = 22, f_hashCount = 0, f_capacity = 100, f_count = 0 \<rparr>"
    by (subst new_BloomSift_valid) (simp_all add: params_100_09 c numeral_3_eq_3)
  have s: "serialize \<lparr> bits = [0, 0, 0], f_size = 22, f_hashCount = 0, f_capacity = 100,
        f_count = 0 \<rparr>
     = \<lparr> s_bits = Some ''AAAA'', s_size = Some 22, s_hashCount = Some 0, s_count = Some 0,
         s_capacity = None \<rparr>"
    by (simp add: serialize_def Let_def b64_char_def base64_alphabet_def)
  have d: "deserialize (Some \<lparr> s_bits = Some ''AAAA'', s_size = Some 22, s_hashCount = Some 0,
        s_count = Some 0, s_capacity = None \<rparr>)
     = Inl (Error ''Invalid serialized data: hashCount must be a positive integer'')"
    by (rule deserialize_bad_hashCount [where b = "''AAAA''"])
      (simp_all add: positive_integer_def)
  show ?thesis using n s d by (intro conjI)
qed

end
